theory Spec2Isabelle
  imports Complex_Main
begin

section \<open>Distributed role assignment on a triangle grid network\<close>

text \<open>
  A shallow embedding of \<^verbatim>\<open>trigridnet_role_assignment.py\<close>. The script is one long
  sequence of top-level loops over global tables; each loop becomes a function here and
  keeps the name of the table it fills. The window, the colours, the pause key and the
  speed control do not influence the tables and are left out, and so are the lists
  \<^verbatim>\<open>yield_nodes\<close>, \<^verbatim>\<open>yield_roles\<close> and \<^verbatim>\<open>persist_nodes\<close>, which are only read
  when the nodes are drawn.

  Preference scores are floating-point numbers that the script only compares, so they
  are modelled as \<open>real\<close>. Roles and time stamps are Python integers (\<open>int\<close>), because
  the table of a node starts with role \<open>-1\<close> and time stamp \<open>-1\<close> for every other node.
\<close>

subsection \<open>Errors and loops that may stop\<close>

text \<open>
  The two \<^verbatim>\<open>sys.exit()\<close> calls of the main loop are \<open>SelfMessageError\<close> and
  \<open>NoAvailableRoleError\<close>. \<open>ValueError\<close> is what \<^verbatim>\<open>list.remove\<close> raises for a missing
  element, \<open>IndexError\<close> what an index out of range raises.
\<close>

datatype error = SelfMessageError | NoAvailableRoleError | ValueError | IndexError

text \<open>A \<^verbatim>\<open>for\<close> loop whose body may stop the program: the first error ends the loop.\<close>

fun foldM :: "('s \<Rightarrow> 'a \<Rightarrow> error + 's) \<Rightarrow> 's \<Rightarrow> 'a list \<Rightarrow> error + 's" where
  "foldM f s [] = Inr s"
| "foldM f s (x # xs) = (case f s x of Inl e \<Rightarrow> Inl e | Inr s' \<Rightarrow> foldM f s' xs)"

text \<open>Python indexing of a list of length \<open>n\<close>: a negative index counts from the end.\<close>

definition in_range :: "nat \<Rightarrow> int \<Rightarrow> bool" where
  "in_range n k = (- int n \<le> k \<and> k < int n)"

definition py_index :: "nat \<Rightarrow> int \<Rightarrow> nat" where
  "py_index n k = (if k < 0 then nat (int n + k) else nat k)"

text \<open>\<^verbatim>\<open>np.argmax\<close>: the index of the first occurrence of the maximum.\<close>

fun argmax :: "real list \<Rightarrow> nat" where
  "argmax [] = 0"
| "argmax [x] = 0"
| "argmax (x # y # ys) = (let k = argmax (y # ys) in if x < (y # ys) ! k then Suc k else 0)"

subsection \<open>The tables of the script\<close>

text \<open>
  An entry of \<^verbatim>\<open>local_role_assignment\<close> is \<^verbatim>\<open>[role, probability, time stamp]\<close>; a message
  is \<^verbatim>\<open>[source, role, probability, time stamp]\<close>.
\<close>

type_synonym claim = "int \<times> real \<times> int"
type_synonym message = "nat \<times> int \<times> real \<times> int"

definition claim_role :: "claim \<Rightarrow> int" where
  "claim_role c = fst c"

definition claim_prob :: "claim \<Rightarrow> real" where
  "claim_prob c = fst (snd c)"

definition claim_time :: "claim \<Rightarrow> int" where
  "claim_time c = snd (snd c)"

text \<open>What is computed once before the main loop and only read afterwards.\<close>

record network =
  net_size :: nat
  connection_lists :: "nat list list"
  neighbors_send :: "nat list list list"
  pref_dist :: "real list list"

text \<open>What the main loop changes.\<close>

record state =
  local_role_assignment :: "claim list list"
  local_node_assignment :: "nat list list list"
  message_rx :: "message list list"
  transmit_flag :: "bool list list"
  change_flag :: "bool list"
  scheme_converged :: "bool list"
  iter_count :: int
  transmission_total :: nat

subsection \<open>Receiving one message (lines 296 to 322)\<close>

definition rx_message :: "network \<Rightarrow> nat \<Rightarrow> state \<Rightarrow> message \<Rightarrow> error + state" where
  "rx_message net i st message =
    (case message of (source, role, probability, time_stamp) \<Rightarrow>
      if source = i then Inl SelfMessageError
      else if net_size net \<le> source then Inl IndexError
      else if claim_time (local_role_assignment st ! i ! source) < time_stamp then
        (let role_old = claim_role (local_role_assignment st ! i ! source);
             own_role = claim_role (local_role_assignment st ! i ! i);
             buckets = local_node_assignment st ! i
         in if 0 \<le> role_old \<and> int (net_size net) \<le> role_old then Inl IndexError
            else if 0 \<le> role_old \<and> source \<notin> set (buckets ! nat role_old) then Inl ValueError
            else if \<not> in_range (net_size net) role then Inl IndexError
            else
              (let buckets1 = (if 0 \<le> role_old
                     then buckets[nat role_old := remove1 source (buckets ! nat role_old)]
                     else buckets);
                   r = py_index (net_size net) role;
                   buckets2 = buckets1[r := buckets1 ! r @ [source]]
               in Inr (st\<lparr>
                    local_node_assignment := (local_node_assignment st)[i := buckets2],
                    local_role_assignment := (local_role_assignment st)
                      [i := (local_role_assignment st ! i)[source := (role, probability, time_stamp)]],
                    transmit_flag := (transmit_flag st)[i := (transmit_flag st ! i)[source := True]],
                    change_flag := (if role = own_role \<and> pref_dist net ! i ! r \<le> probability
                      then (change_flag st)[i := True] else change_flag st)\<rparr>)))
      else Inr st)"

text \<open>All messages of node \<open>i\<close>, then all nodes (lines 295 and 296).\<close>

definition rx_node :: "network \<Rightarrow> message list list \<Rightarrow> state \<Rightarrow> nat \<Rightarrow> error + state" where
  "rx_node net message_rx_buf st i = foldM (rx_message net i) st (message_rx_buf ! i)"

definition rx_all :: "network \<Rightarrow> message list list \<Rightarrow> state \<Rightarrow> error + state" where
  "rx_all net message_rx_buf st = foldM (rx_node net message_rx_buf) st [0..<net_size net]"

subsection \<open>Changing the chosen role (lines 324 to 347)\<close>

text \<open>The loop of lines 331 to 334 over the roles that some node is known to hold.\<close>

definition eliminate_taken :: "nat list list \<Rightarrow> real list \<Rightarrow> nat list \<Rightarrow> real list" where
  "eliminate_taken buckets pref_dist_temp js =
     foldl (\<lambda>t j. if buckets ! j \<noteq> [] then t[j := - 1] else t) pref_dist_temp js"

definition role_change :: "network \<Rightarrow> nat \<Rightarrow> state \<Rightarrow> error + state" where
  "role_change net i st =
    (let role_old = claim_role (local_role_assignment st ! i ! i);
         buckets = local_node_assignment st ! i
     in if \<not> in_range (net_size net) role_old then Inl IndexError
        else
          (let ro = py_index (net_size net) role_old;
               pref_dist_temp = eliminate_taken buckets ((pref_dist net ! i)[ro := - 1])
                                  [0..<net_size net];
               role_new = argmax pref_dist_temp
           in if pref_dist_temp ! role_new < 0 then Inl NoAvailableRoleError
              else if i \<notin> set (buckets ! ro) then Inl ValueError
              else
                (let buckets1 = buckets[ro := remove1 i (buckets ! ro)];
                     buckets2 = buckets1[role_new := buckets1 ! role_new @ [i]]
                 in Inr (st\<lparr>
                      change_flag := (change_flag st)[i := False],
                      local_node_assignment := (local_node_assignment st)[i := buckets2],
                      local_role_assignment := (local_role_assignment st)
                        [i := (local_role_assignment st ! i)
                           [i := (int role_new, pref_dist net ! i ! role_new, iter_count st)]],
                      transmit_flag := (transmit_flag st)[i := (transmit_flag st ! i)[i := True]]\<rparr>))))"

definition change_node :: "network \<Rightarrow> state \<Rightarrow> nat \<Rightarrow> error + state" where
  "change_node net st i = (if change_flag st ! i then role_change net i st else Inr st)"

definition change_all :: "network \<Rightarrow> state \<Rightarrow> error + state" where
  "change_all net st = foldM (change_node net) st [0..<net_size net]"

subsection \<open>Transmitting (lines 348 to 359)\<close>

text \<open>
  The appends \<^verbatim>\<open>message_rx[target].append(message_temp)\<close> in the order the loops make
  them, each with the node that transmits: (transmitter, target, message).
\<close>

type_synonym transmission = "nat \<times> nat \<times> message"

definition relay_message :: "state \<Rightarrow> nat \<Rightarrow> nat \<Rightarrow> message" where
  "relay_message st transmitter source =
     (source, local_role_assignment st ! transmitter ! source)"

definition transmissions :: "network \<Rightarrow> state \<Rightarrow> transmission list" where
  "transmissions net st =
     concat (map (\<lambda>transmitter.
       concat (map (\<lambda>source.
         if transmit_flag st ! transmitter ! source
         then map (\<lambda>target. (transmitter, target, relay_message st transmitter source))
                (neighbors_send net ! source ! transmitter)
         else [])
       [0..<net_size net]))
     [0..<net_size net])"

definition deliver :: "message list list \<Rightarrow> transmission list \<Rightarrow> message list list" where
  "deliver rx ts = foldl (\<lambda>rx (transmitter, target, m). rx[target := rx ! target @ [m]]) rx ts"

definition transmit :: "network \<Rightarrow> state \<Rightarrow> state" where
  "transmit net st =
     st\<lparr>message_rx := deliver (message_rx st) (transmissions net st),
        transmission_total := length (transmissions net st),
        transmit_flag := map (map (\<lambda>_. False)) (transmit_flag st)\<rparr>"

subsection \<open>Convergence at a node and of all nodes (lines 361 to 370 and 413 to 418)\<close>

definition one_node_per_role :: "network \<Rightarrow> state \<Rightarrow> nat \<Rightarrow> bool" where
  "one_node_per_role net st i =
     list_all (\<lambda>j. length (local_node_assignment st ! i ! j) = 1) [0..<net_size net]"

definition check_converged :: "network \<Rightarrow> state \<Rightarrow> state" where
  "check_converged net st =
     st\<lparr>scheme_converged :=
          map (\<lambda>i. if \<not> scheme_converged st ! i then one_node_per_role net st i else True)
            [0..<net_size net]\<rparr>"

text \<open>
  The exit test starts from \<^verbatim>\<open>scheme_converged[0]\<close> and takes the conjunction with the
  other flags; for a network with at least one node this is the conjunction of all flags.
\<close>

definition all_converged :: "state \<Rightarrow> bool" where
  "all_converged st = list_all (\<lambda>b. b) (scheme_converged st)"

subsection \<open>One iteration of the main loop and the run\<close>

definition round_step :: "network \<Rightarrow> state \<Rightarrow> error + state" where
  "round_step net st =
    (let message_rx_buf = message_rx st;
         st1 = st\<lparr>iter_count := iter_count st + 1,
                  message_rx := replicate (net_size net) []\<rparr>
     in case rx_all net message_rx_buf st1 of
          Inl e \<Rightarrow> Inl e
        | Inr st2 \<Rightarrow>
           (case change_all net st2 of
              Inl e \<Rightarrow> Inl e
            | Inr st3 \<Rightarrow> Inr (check_converged net (transmit net st3))))"

text \<open>
  The main loop runs until all nodes have converged. It need not end, so the run takes
  a bound on the number of iterations: \<open>None\<close> is a run that is still going after that
  many.
\<close>

fun simulate :: "nat \<Rightarrow> network \<Rightarrow> state \<Rightarrow> (error + state) option" where
  "simulate 0 net st = None"
| "simulate (Suc k) net st =
    (case round_step net st of
       Inl e \<Rightarrow> Some (Inl e)
     | Inr st' \<Rightarrow> if all_converged st' then Some (Inr st') else simulate k net st')"

subsection \<open>The tables before the main loop (lines 203 to 236 and 252 to 257)\<close>

definition initial_roles :: "network \<Rightarrow> nat list" where
  "initial_roles net = map argmax (pref_dist net)"

definition initial_message :: "network \<Rightarrow> nat \<Rightarrow> message" where
  "initial_message net source =
     (source, int (initial_roles net ! source),
      pref_dist net ! source ! (initial_roles net ! source), 0)"

definition initial_transmissions :: "network \<Rightarrow> transmission list" where
  "initial_transmissions net =
     concat (map (\<lambda>source.
       map (\<lambda>target. (source, target, initial_message net source))
         (connection_lists net ! source))
     [0..<net_size net])"

definition init_state :: "network \<Rightarrow> state" where
  "init_state net =
    \<lparr>local_role_assignment =
       map (\<lambda>i. map (\<lambda>j. if j = i
                  then (int (initial_roles net ! i),
                        pref_dist net ! i ! (initial_roles net ! i), 0)
                  else (- 1, 0, - 1))
              [0..<net_size net])
         [0..<net_size net],
     local_node_assignment =
       map (\<lambda>i. map (\<lambda>j. if j = initial_roles net ! i then [i] else []) [0..<net_size net])
         [0..<net_size net],
     message_rx = deliver (replicate (net_size net) []) (initial_transmissions net),
     transmit_flag = replicate (net_size net) (replicate (net_size net) False),
     change_flag = replicate (net_size net) False,
     scheme_converged = replicate (net_size net) False,
     iter_count = 0,
     transmission_total = length (initial_transmissions net)\<rparr>"

subsection \<open>Well-formed tables\<close>

text \<open>
  What lines 75 to 86 and 194 to 204 guarantee: the tables have one row per node, the
  connection lists come from \<^verbatim>\<open>np.where\<close> (so they have no duplicates and name nodes),
  and the preferences come from \<^verbatim>\<open>np.random.rand\<close> (so they lie in [0, 1)).
\<close>

definition wf_network :: "network \<Rightarrow> bool" where
  "wf_network net =
     (let n = net_size net in
      length (connection_lists net) = n \<and>
      (\<forall>s\<in>{0..<n}. distinct (connection_lists net ! s) \<and>
         (\<forall>t\<in>set (connection_lists net ! s). t < n)) \<and>
      length (pref_dist net) = n \<and>
      (\<forall>i\<in>{0..<n}. length (pref_dist net ! i) = n \<and>
         (\<forall>p\<in>set (pref_dist net ! i). 0 \<le> p \<and> p < 1)) \<and>
      length (neighbors_send net) = n \<and>
      (\<forall>s\<in>{0..<n}. length (neighbors_send net ! s) = n \<and>
         (\<forall>j\<in>{0..<n}. \<forall>t\<in>set (neighbors_send net ! s ! j). t < n)))"

subsection \<open>Roles a node may change to\<close>

text \<open>
  Role \<open>r\<close> is available to node \<open>i\<close> when it is not the role \<open>i\<close> holds and no node
  is listed for it in the table of \<open>i\<close>.
\<close>

definition available :: "network \<Rightarrow> state \<Rightarrow> nat \<Rightarrow> nat \<Rightarrow> bool" where
  "available net st i r =
     (r < net_size net \<and> int r \<noteq> claim_role (local_role_assignment st ! i ! i) \<and>
      local_node_assignment st ! i ! r = [])"

subsection \<open>Messages that make a node yield\<close>

text \<open>
  The two tests of lines 304 and 317 to 318 on a message: it is newer than the entry
  stored for its source, and it names the role of node \<open>i\<close> with a probability that is
  not below the score of \<open>i\<close> for that role.
\<close>

definition newer :: "state \<Rightarrow> nat \<Rightarrow> message \<Rightarrow> bool" where
  "newer st i m = (case m of (source, role, probability, time_stamp) \<Rightarrow>
     claim_time (local_role_assignment st ! i ! source) < time_stamp)"

definition conflicting :: "network \<Rightarrow> state \<Rightarrow> nat \<Rightarrow> message \<Rightarrow> bool" where
  "conflicting net st i m = (case m of (source, role, probability, time_stamp) \<Rightarrow>
     role = claim_role (local_role_assignment st ! i ! i) \<and>
     pref_dist net ! i ! py_index (net_size net) role \<le> probability)"

subsection \<open>The network (lines 74 to 86)\<close>

text \<open>
  Two nodes of the triangle grid are connected when their positions differ as line 80
  says. The loops of lines 76 to 82 set \<^verbatim>\<open>connections[i,j]\<close> and \<^verbatim>\<open>connections[j,i]\<close>
  for \<open>i < j\<close> from the positions of \<open>i\<close> and \<open>j\<close> in this order;
  \<^verbatim>\<open>connection_lists[i]\<close> is \<^verbatim>\<open>np.where(connections[i] == 1)\<close>. The number of nodes is
  the number of rows.
\<close>

definition connected :: "int \<times> int \<Rightarrow> int \<times> int \<Rightarrow> bool" where
  "connected p q =
     (let diff_x = fst p - fst q; diff_y = snd p - snd q
      in \<bar>diff_x\<bar> + \<bar>diff_y\<bar> = 1 \<or> diff_x * diff_y = - 1)"

definition connections_of :: "(int \<times> int) list \<Rightarrow> int list list" where
  "connections_of nodes_tri =
     map (\<lambda>i. map (\<lambda>j. if i \<noteq> j \<and> connected (nodes_tri ! min i j) (nodes_tri ! max i j)
                       then 1 else 0)
            [0..<length nodes_tri])
       [0..<length nodes_tri]"

definition connection_lists_of :: "int list list \<Rightarrow> nat list list" where
  "connection_lists_of connections =
     map (\<lambda>i. filter (\<lambda>j. connections ! i ! j = 1) [0..<length connections])
       [0..<length connections]"

subsection \<open>The gradient map (lines 160 to 182)\<close>

text \<open>
  \<open>visit\<close> is the body of the innermost loop (lines 172 to 175) on the row
  \<^verbatim>\<open>gradients[source]\<close> and the list \<^verbatim>\<open>targets_temp\<close>. An index outside the row stops
  the program.
\<close>

definition visit :: "nat \<Rightarrow> nat \<Rightarrow> int list \<times> nat list \<Rightarrow> nat \<Rightarrow> error + int list \<times> nat list" where
  "visit source pool_gradient acc target_new =
     (case acc of (row, targets_temp) \<Rightarrow>
        if target_new = source then Inr acc
        else if length row \<le> target_new then Inl IndexError
        else if row ! target_new = 0
          then Inr (row[target_new := int pool_gradient + 1], targets_temp @ [target_new])
        else Inr acc)"

definition expand_target ::
  "nat list list \<Rightarrow> nat \<Rightarrow> nat \<Rightarrow> int list \<times> nat list \<Rightarrow> nat \<Rightarrow> error + int list \<times> nat list" where
  "expand_target cl source pool_gradient acc target =
     (if length cl \<le> target then Inl IndexError
      else foldM (visit source pool_gradient) acc (cl ! target))"

definition expand_source ::
  "nat list list \<Rightarrow> nat \<Rightarrow> nat \<Rightarrow> int list \<Rightarrow> nat list \<Rightarrow> error + int list \<times> nat list" where
  "expand_source cl source pool_gradient row targets =
     foldM (expand_target cl source pool_gradient) (row, []) targets"

fun pool_pass ::
  "nat list list \<Rightarrow> nat \<Rightarrow> int list list \<Rightarrow> (nat \<times> nat list) list \<Rightarrow>
     error + int list list \<times> (nat \<times> nat list) list \<times> nat list" where
  "pool_pass cl pool_gradient gradients [] = Inr (gradients, [], [])"
| "pool_pass cl pool_gradient gradients ((source, targets) # rest) =
     (if length gradients \<le> source then Inl IndexError
      else case expand_source cl source pool_gradient (gradients ! source) targets of
        Inl e \<Rightarrow> Inl e
      | Inr (row, targets_temp) \<Rightarrow>
         (case pool_pass cl pool_gradient (gradients[source := row]) rest of
            Inl e \<Rightarrow> Inl e
          | Inr (gradients', rest', source_deactivate) \<Rightarrow>
              if targets_temp = []
              then Inr (gradients', (source, targets) # rest', source # source_deactivate)
              else Inr (gradients', (source, targets_temp) # rest', source_deactivate)))"

definition pop_sources :: "nat list \<Rightarrow> (nat \<times> nat list) list \<Rightarrow> (nat \<times> nat list) list" where
  "pop_sources source_deactivate pool_conn =
     filter (\<lambda>entry. fst entry \<notin> set source_deactivate) pool_conn"

text \<open>
  The \<^verbatim>\<open>while\<close> loop of line 166 ends: an iteration either removes a source from the pool
  or gives a gradient to a node that had none, and the number of entries of \<^verbatim>\<open>gradients\<close>
  that are still 0 never grows.
\<close>

definition zero_count :: "int list \<Rightarrow> nat" where
  "zero_count row = length (filter (\<lambda>x. x = 0) row)"

definition zeros :: "int list list \<Rightarrow> nat" where
  "zeros gradients = sum_list (map (\<lambda>row. length (filter (\<lambda>x. x = 0) row)) gradients)"

lemma zero_count_update:
  "k < length r \<Longrightarrow> r ! k = 0 \<Longrightarrow> v \<noteq> 0 \<Longrightarrow> Suc (zero_count (r[k := v])) = zero_count r"
  unfolding zero_count_def
proof (induction r arbitrary: k)
  case Nil
  then show ?case by simp
next
  case (Cons a r)
  then show ?case by (cases k) auto
qed

lemma visit_zeros:
  assumes "visit source pg (row, tt) x = Inr (row', tt')"
  shows "zero_count row' + length tt' = zero_count row + length tt"
proof (cases "x \<noteq> source \<and> row ! x = 0")
  case True
  with assms have lt: "x < length row" and r: "row' = row[x := int pg + 1]" "tt' = tt @ [x]"
    by (auto simp: visit_def split: if_splits)
  have "int pg + 1 \<noteq> 0" by simp
  from zero_count_update [OF lt _ this] True r show ?thesis by simp
next
  case False
  with assms show ?thesis by (auto simp: visit_def split: if_splits)
qed

lemma visits_zeros:
  assumes "foldM (visit source pg) acc xs = Inr acc'"
  shows "zero_count (fst acc') + length (snd acc') = zero_count (fst acc) + length (snd acc)"
  using assms
proof (induction xs arbitrary: acc)
  case Nil
  then show ?case by simp
next
  case (Cons x xs)
  from Cons.prems obtain a1 where a1: "visit source pg acc x = Inr a1"
    and rest: "foldM (visit source pg) a1 xs = Inr acc'"
    by (auto split: sum.splits)
  from visit_zeros [of source pg "fst acc" "snd acc" x "fst a1" "snd a1"] a1
  have "zero_count (fst a1) + length (snd a1) = zero_count (fst acc) + length (snd acc)"
    by simp
  with Cons.IH [OF rest] show ?case by simp
qed

lemma expand_source_zeros:
  assumes "expand_source cl source pg row targets = Inr (row', tt)"
  shows "zero_count row' + length tt = zero_count row"
proof -
  have "zero_count (fst acc') + length (snd acc') = zero_count (fst acc) + length (snd acc)"
    if "foldM (expand_target cl source pg) acc ts = Inr acc'" for acc acc' ts
    using that
  proof (induction ts arbitrary: acc)
    case Nil
    then show ?case by simp
  next
    case (Cons t ts)
    from Cons.prems obtain a1 where a1: "expand_target cl source pg acc t = Inr a1"
      and rest: "foldM (expand_target cl source pg) a1 ts = Inr acc'"
      by (auto split: sum.splits)
    from a1 have "foldM (visit source pg) acc (cl ! t) = Inr a1"
      by (auto simp: expand_target_def split: if_splits)
    from visits_zeros [OF this] Cons.IH [OF rest] show ?case by simp
  qed
  from this [of "(row, [])" targets "(row', tt)"] assms show ?thesis
    by (simp add: expand_source_def)
qed

lemma zeros_update:
  assumes "s < length g"
  shows "zeros (g[s := row]) + zero_count (g ! s) = zeros g + zero_count row"
  using assms unfolding zeros_def zero_count_def
proof (induction g arbitrary: s)
  case Nil
  then show ?case by simp
next
  case (Cons a g)
  then show ?case by (cases s) auto
qed

lemma pool_pass_measure:
  assumes "pool_pass cl pg g pool = Inr (g', pool', deact)"
  shows "zeros g' \<le> zeros g"
    and "length pool' = length pool"
    and "set deact \<subseteq> fst ` set pool'"
    and "pool \<noteq> [] \<Longrightarrow> deact = [] \<Longrightarrow> zeros g' < zeros g"
  using assms
proof (induction pool arbitrary: g g' pool' deact)
  case Nil
  { case 1 then show ?case by simp }
  { case 2 then show ?case by simp }
  { case 3 then show ?case by simp }
  { case 4 then show ?case by simp }
next
  case (Cons entry rest)
  obtain source targets where entry: "entry = (source, targets)" by (cases entry)
  { fix g g' pool' deact
    assume pp: "pool_pass cl pg g (entry # rest) = Inr (g', pool', deact)"
    then have lt: "source < length g"
      by (auto simp: entry split: if_splits)
    from pp lt obtain row tt where ex: "expand_source cl source pg (g ! source) targets = Inr (row, tt)"
      by (auto simp: entry split: sum.splits)
    from pp lt ex obtain g1 rest1 deact1 where
      rec: "pool_pass cl pg (g[source := row]) rest = Inr (g1, rest1, deact1)"
      by (auto simp: entry split: sum.splits)
    from pp lt ex rec have res: "g' = g1"
      "pool' = (if tt = [] then (source, targets) # rest1 else (source, tt) # rest1)"
      "deact = (if tt = [] then source # deact1 else deact1)"
      by (auto simp: entry split: if_splits)
    note z = expand_source_zeros [OF ex] zeros_update [OF lt, of row]
    note ih = Cons.IH(1) [OF rec] Cons.IH(2) [OF rec] Cons.IH(3) [OF rec]
    have zle: "zeros (g[source := row]) \<le> zeros g"
      using z by linarith
    have zlt: "zeros (g[source := row]) < zeros g" if "tt \<noteq> []"
    proof -
      from that have "1 \<le> length tt" by (cases tt) simp_all
      with z show ?thesis by linarith
    qed
    have "zeros g' \<le> zeros g \<and> length pool' = length (entry # rest) \<and>
          set deact \<subseteq> fst ` set pool' \<and> (deact = [] \<longrightarrow> zeros g' < zeros g)"
    proof (cases "tt = []")
      case True
      with res ih zle show ?thesis by auto
    next
      case False
      from zlt [OF False] ih(1) have "zeros g1 < zeros g" by linarith
      with False res ih show ?thesis by auto
    qed
  } note all = this
  { case 1 from all [OF 1] show ?case by simp }
  { case 2 from all [OF 2] show ?case by simp }
  { case 3 from all [OF 3] show ?case by simp }
  { case 4 from all [OF 4(3)] 4(2) show ?case by simp }
qed

lemma pop_sources_measure:
  assumes "pool_pass cl pg g pool = Inr (g', pool', deact)" and "pool \<noteq> []"
  shows "zeros g' + length (pop_sources deact pool') < zeros g + length pool"
proof (cases "deact = []")
  case True
  then have "pop_sources deact pool' = pool'" by (simp add: pop_sources_def)
  with pool_pass_measure(2,4) [OF assms(1)] assms(2) True show ?thesis by simp
next
  case False
  then obtain s where "s \<in> set deact" by (cases deact) auto
  with pool_pass_measure(3) [OF assms(1)] obtain entry where
    "entry \<in> set pool'" "fst entry \<in> set deact" by auto
  then have "length (pop_sources deact pool') < length pool'"
    unfolding pop_sources_def by (intro length_filter_less [of entry]) simp_all
  with pool_pass_measure(1,2) [OF assms(1)] show ?thesis by simp
qed

function pool_loop ::
  "nat list list \<Rightarrow> int list list \<Rightarrow> (nat \<times> nat list) list \<Rightarrow> nat \<Rightarrow> error + int list list" where
  "pool_loop cl gradients pool_conn pool_gradient =
     (if pool_conn = [] then Inr gradients
      else case pool_pass cl pool_gradient gradients pool_conn of
        Inl e \<Rightarrow> Inl e
      | Inr (gradients', pool_conn', source_deactivate) \<Rightarrow>
          pool_loop cl gradients' (pop_sources source_deactivate pool_conn') (pool_gradient + 1))"
  by pat_completeness auto
termination
  by (relation "measure (\<lambda>(cl, gradients, pool_conn, pool_gradient).
        zeros gradients + length pool_conn)")
     (auto simp: pop_sources_measure)

text \<open>
  The gradient map starts as a copy of \<^verbatim>\<open>connections\<close>, and every source starts with its
  connection list as targets (lines 160 to 165).
\<close>

definition gradients_of :: "int list list \<Rightarrow> error + int list list" where
  "gradients_of connections =
     (let cl = connection_lists_of connections
      in pool_loop cl connections (map (\<lambda>i. (i, cl ! i)) [0..<length connections]) 1)"

definition gradients_rel :: "int list list \<Rightarrow> nat \<Rightarrow> nat \<Rightarrow> nat \<Rightarrow> int" where
  "gradients_rel gradients i j k = gradients ! i ! k - gradients ! i ! j"

definition neighbors_send_of :: "nat list list \<Rightarrow> int list list \<Rightarrow> nat list list list" where
  "neighbors_send_of cl gradients =
     map (\<lambda>i. map (\<lambda>j. filter (\<lambda>neighbor. gradients_rel gradients i j neighbor = 1) (cl ! j))
            [0..<length cl])
       [0..<length cl]"

definition build_network :: "int list list \<Rightarrow> real list list \<Rightarrow> error + network" where
  "build_network connections pref =
     (case gradients_of connections of
        Inl e \<Rightarrow> Inl e
      | Inr gradients \<Rightarrow>
          Inr \<lparr>net_size = length connections,
               connection_lists = connection_lists_of connections,
               neighbors_send = neighbors_send_of (connection_lists_of connections) gradients,
               pref_dist = pref\<rparr>)"

text \<open>The roles the nodes hold themselves.\<close>

definition own_roles :: "network \<Rightarrow> state \<Rightarrow> int list" where
  "own_roles net st =
     map (\<lambda>i. claim_role (local_role_assignment st ! i ! i)) [0..<net_size net]"

subsection \<open>Hop distance\<close>

text \<open>
  \<open>ball cl s k\<close> is the set of nodes that \<open>k\<close> or fewer steps along connections lead to
  from \<open>s\<close>, \<open>sphere cl s k\<close> the set of nodes at exactly \<open>k\<close> steps. The hop distance
  of \<open>n\<close> from \<open>s\<close> is \<open>d\<close> when \<open>d\<close> steps lead to \<open>n\<close> and fewer do not.
\<close>

fun ball :: "nat list list \<Rightarrow> nat \<Rightarrow> nat \<Rightarrow> nat set" where
  "ball cl s 0 = {s}"
| "ball cl s (Suc k) = ball cl s k \<union> (\<Union>n\<in>ball cl s k. set (cl ! n))"

definition sphere :: "nat list list \<Rightarrow> nat \<Rightarrow> nat \<Rightarrow> nat set" where
  "sphere cl s k = (if k = 0 then {s} else ball cl s k - ball cl s (k - 1))"

definition hop_distance :: "nat list list \<Rightarrow> nat \<Rightarrow> nat \<Rightarrow> nat \<Rightarrow> bool" where
  "hop_distance cl s n d = (n \<in> ball cl s d \<and> (\<forall>k<d. n \<notin> ball cl s k))"

text \<open>
  What lines 75 to 82 guarantee for \<^verbatim>\<open>connections\<close>: a square matrix of zeros and ones,
  symmetric, with zeros on the diagonal. The graph is connected when some number of steps
  leads from every node to every node.
\<close>

definition wf_connections :: "int list list \<Rightarrow> bool" where
  "wf_connections c =
     (\<forall>i\<in>{0..<length c}. length (c ! i) = length c \<and> c ! i ! i = 0 \<and>
        (\<forall>j\<in>{0..<length c}. (c ! i ! j = 0 \<or> c ! i ! j = 1) \<and> c ! j ! i = c ! i ! j))"

definition connected_graph :: "int list list \<Rightarrow> bool" where
  "connected_graph c =
     (\<forall>s<length c. \<forall>n<length c. \<exists>k. n \<in> ball (connection_lists_of c) s k)"

definition graph_ok :: "nat list list \<Rightarrow> bool" where
  "graph_ok cl = (\<forall>i\<in>{0..<length cl}. \<forall>j\<in>set (cl ! i). j < length cl)"

subsection \<open>Invariants of the gradient loop\<close>

text \<open>
  \<open>marked_row\<close> is a row after the nodes of \<open>X\<close> that had no gradient were given
  \<open>pg + 1\<close>. \<open>row_ok\<close> says that a row holds the hop distances up to \<open>pg\<close> and 0
  beyond, \<open>row_final\<close> that it holds all hop distances, and 0 for nodes that cannot be
  reached. \<open>pool_ok\<close> says that every source of the pool has such a row and the nodes at
  distance \<open>pg\<close> as targets.
\<close>

definition marked_row :: "nat \<Rightarrow> nat \<Rightarrow> int list \<Rightarrow> nat set \<Rightarrow> int list" where
  "marked_row source pg row X =
     map (\<lambda>n. if n \<in> X \<and> n \<noteq> source \<and> row ! n = 0 then int pg + 1 else row ! n)
       [0..<length row]"

definition row_ok :: "nat list list \<Rightarrow> nat \<Rightarrow> nat \<Rightarrow> int list \<Rightarrow> bool" where
  "row_ok cl s pg row =
     (length row = length cl \<and>
      (\<forall>n<length cl.
         (n \<in> ball cl s pg \<longrightarrow> 0 \<le> row ! n \<and> n \<in> sphere cl s (nat (row ! n))) \<and>
         (n \<notin> ball cl s pg \<longrightarrow> row ! n = 0)))"

definition row_final :: "nat list list \<Rightarrow> nat \<Rightarrow> int list \<Rightarrow> bool" where
  "row_final cl s row =
     (length row = length cl \<and>
      (\<forall>n<length cl.
         ((\<exists>k. n \<in> ball cl s k) \<longrightarrow> 0 \<le> row ! n \<and> n \<in> sphere cl s (nat (row ! n))) \<and>
         ((\<forall>k. n \<notin> ball cl s k) \<longrightarrow> row ! n = 0)))"

definition pool_ok :: "nat list list \<Rightarrow> nat \<Rightarrow> int list list \<Rightarrow> (nat \<times> nat list) list \<Rightarrow> bool" where
  "pool_ok cl pg g pool =
     (length g = length cl \<and> distinct (map fst pool) \<and>
      (\<forall>entry\<in>set pool. fst entry < length cl \<and> row_ok cl (fst entry) pg (g ! fst entry) \<and>
         set (snd entry) = sphere cl (fst entry) pg))"

subsection \<open>The tables of a node and its list of nodes per role\<close>

text \<open>
  \<open>consistent\<close> is the relation between the two tables of a node that the script keeps:
  node \<open>j\<close> is listed for role \<open>r\<close> in the table of \<open>i\<close> exactly when the entry of
  \<open>i\<close> for \<open>j\<close> holds role \<open>r\<close>. \<open>rounds k\<close> is \<open>k\<close> iterations of the main loop.
\<close>

definition consistent :: "network \<Rightarrow> state \<Rightarrow> bool" where
  "consistent net st =
     (\<forall>i\<in>{0..<net_size net}. \<forall>j\<in>{0..<net_size net}. \<forall>r\<in>{0..<net_size net}.
        (j \<in> set (local_node_assignment st ! i ! r)) =
        (claim_role (local_role_assignment st ! i ! j) = int r))"

fun rounds :: "nat \<Rightarrow> network \<Rightarrow> state \<Rightarrow> error + state" where
  "rounds 0 net st = Inr st"
| "rounds (Suc k) net st =
     (case round_step net st of Inl e \<Rightarrow> Inl e | Inr st' \<Rightarrow> rounds k net st')"

text \<open>
  The invariant behind it. \<open>buckets_ok\<close> adds that no node is listed twice (line 309
  removes one occurrence). \<open>node_ok\<close> adds the sizes of the rows of node \<open>i\<close>, that
  every role in its table is -1 or a role, that its own role is a role, and that an entry
  marked for transmission holds a role. \<open>message_ok\<close> says that a message names a node
  and a role; \<open>tables_ok\<close> says all this of all nodes and of all messages in the inboxes.
\<close>

definition buckets_ok :: "nat \<Rightarrow> (nat \<Rightarrow> int) \<Rightarrow> nat list list \<Rightarrow> bool" where
  "buckets_ok n f b =
     (length b = n \<and>
      (\<forall>q<n. distinct (b ! q) \<and> set (b ! q) = {j. j < n \<and> f j = int q}))"

definition role_of :: "state \<Rightarrow> nat \<Rightarrow> nat \<Rightarrow> int" where
  "role_of st i j = claim_role (local_role_assignment st ! i ! j)"

definition node_ok :: "network \<Rightarrow> state \<Rightarrow> nat \<Rightarrow> bool" where
  "node_ok net st i =
     (length (local_role_assignment st ! i) = net_size net \<and>
      length (transmit_flag st ! i) = net_size net \<and>
      buckets_ok (net_size net) (role_of st i) (local_node_assignment st ! i) \<and>
      (\<forall>j<net_size net. role_of st i j = - 1 \<or>
         (0 \<le> role_of st i j \<and> role_of st i j < int (net_size net))) \<and>
      0 \<le> role_of st i i \<and>
      (\<forall>j<net_size net. transmit_flag st ! i ! j \<longrightarrow> 0 \<le> role_of st i j))"

definition message_ok :: "network \<Rightarrow> message \<Rightarrow> bool" where
  "message_ok net m =
     (fst m < net_size net \<and> 0 \<le> fst (snd m) \<and> fst (snd m) < int (net_size net))"

definition dims_ok :: "network \<Rightarrow> state \<Rightarrow> bool" where
  "dims_ok net st =
     (length (local_role_assignment st) = net_size net \<and>
      length (local_node_assignment st) = net_size net \<and>
      length (transmit_flag st) = net_size net \<and>
      length (change_flag st) = net_size net)"

definition rows_ok :: "network \<Rightarrow> state \<Rightarrow> bool" where
  "rows_ok net st = (dims_ok net st \<and> (\<forall>i<net_size net. node_ok net st i))"

definition tables_ok :: "network \<Rightarrow> state \<Rightarrow> bool" where
  "tables_ok net st =
     (dims_ok net st \<and> length (message_rx st) = net_size net \<and>
      (\<forall>i<net_size net. node_ok net st i) \<and>
      (\<forall>i<net_size net. \<forall>m\<in>set (message_rx st ! i). message_ok net m))"

subsection \<open>Time stamps of the messages on their way\<close>

text \<open>
  A message about source \<open>s\<close> moves one step away from \<open>s\<close> in every iteration, so its
  time stamp is fixed by the iteration in which it arrives and the gradient of the node it
  arrives at. \<open>layered\<close> is what this needs of the gradient map \<open>g\<close>: a source has
  gradient 0, its neighbours have gradient 1, and \<^verbatim>\<open>neighbors_send\<close> leads one gradient up.
  \<open>inbox_times\<close> gives the time stamp of every message in an inbox between two
  iterations, \<open>relay_times\<close> that of every entry marked for transmission during an
  iteration, and \<open>flags_clear\<close> says that between two iterations no node is marked to
  change its role and no entry is marked for transmission.
\<close>

definition layered :: "network \<Rightarrow> int list list \<Rightarrow> bool" where
  "layered net g =
     ((\<forall>s<net_size net. g ! s ! s = 0) \<and>
      (\<forall>s<net_size net. \<forall>t\<in>set (connection_lists net ! s). g ! s ! t = 1) \<and>
      (\<forall>s<net_size net. \<forall>j<net_size net. \<forall>t\<in>set (neighbors_send net ! s ! j).
         g ! s ! t = g ! s ! j + 1))"

definition inbox_times :: "network \<Rightarrow> int list list \<Rightarrow> state \<Rightarrow> bool" where
  "inbox_times net g st =
     (\<forall>i<net_size net. \<forall>m\<in>set (message_rx st ! i).
        snd (snd (snd m)) = iter_count st + 1 - g ! fst m ! i)"

definition relay_times :: "network \<Rightarrow> int list list \<Rightarrow> state \<Rightarrow> bool" where
  "relay_times net g st =
     (\<forall>j<net_size net. \<forall>s<net_size net. transmit_flag st ! j ! s \<longrightarrow>
        claim_time (local_role_assignment st ! j ! s) = iter_count st - g ! s ! j)"

definition flags_clear :: "network \<Rightarrow> state \<Rightarrow> bool" where
  "flags_clear net st =
     ((\<forall>i<net_size net. \<not> change_flag st ! i) \<and>
      (\<forall>i<net_size net. \<forall>s<net_size net. \<not> transmit_flag st ! i ! s))"

subsection \<open>Small networks used to run the definitions\<close>

text \<open>
  Two nodes at (0,0) and (1,0), connected. The preference rows are equal, so both nodes
  start with role 0 at the same probability.
\<close>

definition pair_net :: network where
  "pair_net =
     \<lparr>net_size = 2, connection_lists = [[1], [0]],
      neighbors_send = [[[1], []], [[], [0]]],
      pref_dist = [[1 / 2, 1 / 4], [1 / 2, 1 / 4]]\<rparr>"

text \<open>Node 0 of \<open>pair_net\<close> after it has received the first message of node 1.\<close>

definition pair_after_rx :: state where
  "pair_after_rx =
     \<lparr>local_role_assignment = [[(0, 1 / 2, 0), (0, 1 / 2, 0)], [(- 1, 0, - 1), (0, 1 / 2, 0)]],
      local_node_assignment = [[[0, 1], []], [[1], []]],
      message_rx = [[(1, 0, 1 / 2, 0)], [(0, 0, 1 / 2, 0)]],
      transmit_flag = [[False, True], [False, False]],
      change_flag = [True, False],
      scheme_converged = [False, False],
      iter_count = 0,
      transmission_total = 2\<rparr>"

text \<open>
  Three nodes at (0,0), (0,-1) and (-1,-1): a line 0 - 1 - 2. Nodes 0 and 1 have the same
  preference row. \<open>line_round1\<close> and \<open>line_round2\<close> are the tables after the first and
  the second iteration.
\<close>

definition line_net :: network where
  "line_net =
     \<lparr>net_size = 3, connection_lists = [[1], [0, 2], [1]],
      neighbors_send = [[[1], [2], []], [[], [0, 2], []], [[], [0], [1]]],
      pref_dist = [[1 / 4, 3 / 4, 1 / 2], [1 / 4, 3 / 4, 1 / 2], [1 / 2, 1 / 4, 3 / 4]]\<rparr>"

definition line_round1 :: state where
  "line_round1 =
     \<lparr>local_role_assignment =
        [[(2, 1 / 2, 1), (1, 3 / 4, 0), (- 1, 0, - 1)],
         [(1, 3 / 4, 0), (0, 1 / 4, 1), (2, 3 / 4, 0)],
         [(- 1, 0, - 1), (1, 3 / 4, 0), (2, 3 / 4, 0)]],
      local_node_assignment = [[[], [1], [0]], [[1], [0], [2]], [[], [1], [2]]],
      message_rx =
        [[(1, 0, 1 / 4, 1), (2, 2, 3 / 4, 0)], [(0, 2, 1 / 2, 1)],
         [(0, 1, 3 / 4, 0), (1, 0, 1 / 4, 1)]],
      transmit_flag = [[False, False, False], [False, False, False], [False, False, False]],
      change_flag = [False, False, False],
      scheme_converged = [False, True, False],
      iter_count = 1,
      transmission_total = 5\<rparr>"

definition line_round2 :: state where
  "line_round2 =
     \<lparr>local_role_assignment =
        [[(1, 3 / 4, 2), (0, 1 / 4, 1), (2, 3 / 4, 0)],
         [(2, 1 / 2, 1), (0, 1 / 4, 1), (2, 3 / 4, 0)],
         [(1, 3 / 4, 0), (0, 1 / 4, 1), (2, 3 / 4, 0)]],
      local_node_assignment = [[[1], [0], [2]], [[1], [], [2, 0]], [[1], [0], [2]]],
      message_rx = [[], [(0, 1, 3 / 4, 2)], [(0, 2, 1 / 2, 1)]],
      transmit_flag = [[False, False, False], [False, False, False], [False, False, False]],
      change_flag = [False, False, False],
      scheme_converged = [True, True, True],
      iter_count = 2,
      transmission_total = 2\<rparr>"

text \<open>\<open>pair_net\<close> after the first iteration of the main loop.\<close>

definition pair_round1 :: state where
  "pair_round1 =
     \<lparr>local_role_assignment = [[(1, 1 / 4, 1), (0, 1 / 2, 0)], [(0, 1 / 2, 0), (1, 1 / 4, 1)]],
      local_node_assignment = [[[1], [0]], [[0], [1]]],
      message_rx = [[(1, 1, 1 / 4, 1)], [(0, 1, 1 / 4, 1)]],
      transmit_flag = [[False, False], [False, False]],
      change_flag = [False, False],
      scheme_converged = [True, True],
      iter_count = 1,
      transmission_total = 2\<rparr>"

text \<open>
  The connections of the line network, and of two nodes at (0,0) and (5,5), which are not
  connected; \<open>apart_round1\<close> is the state of the latter after the first iteration.
\<close>

definition line_connections :: "int list list" where
  "line_connections = connections_of [(0, 0), (0, - 1), (- 1, - 1)]"

definition apart_connections :: "int list list" where
  "apart_connections = connections_of [(0, 0), (5, 5)]"

definition apart_net :: network where
  "apart_net =
     \<lparr>net_size = 2, connection_lists = [[], []],
      neighbors_send = [[[], []], [[], []]],
      pref_dist = [[1 / 2, 1 / 4], [1 / 4, 1 / 2]]\<rparr>"

definition apart_round1 :: state where
  "apart_round1 =
     \<lparr>local_role_assignment = [[(0, 1 / 2, 0), (- 1, 0, - 1)], [(- 1, 0, - 1), (1, 1 / 2, 0)]],
      local_node_assignment = [[[0], []], [[], [1]]],
      message_rx = [[], []],
      transmit_flag = [[False, False], [False, False]],
      change_flag = [False, False],
      scheme_converged = [False, False],
      iter_count = 1,
      transmission_total = 0\<rparr>"

text \<open>
  The line network in its second iteration, after all nodes have received their messages
  and before any of them changes its role.
\<close>

definition line_rx2 :: state where
  "line_rx2 =
     \<lparr>local_role_assignment =
        [[(2, 1 / 2, 1), (0, 1 / 4, 1), (2, 3 / 4, 0)],
         [(2, 1 / 2, 1), (0, 1 / 4, 1), (2, 3 / 4, 0)],
         [(1, 3 / 4, 0), (0, 1 / 4, 1), (2, 3 / 4, 0)]],
      local_node_assignment = [[[1], [], [0, 2]], [[1], [], [2, 0]], [[1], [0], [2]]],
      message_rx = [[], [], []],
      transmit_flag = [[False, True, True], [True, False, False], [True, True, False]],
      change_flag = [True, False, False],
      scheme_converged = [False, True, False],
      iter_count = 2,
      transmission_total = 5\<rparr>"

text \<open>
  Three nodes at (0,0), (1,0) and (5,5): the first two are connected, the third is
  connected to neither.
\<close>

definition island_connections :: "int list list" where
  "island_connections = connections_of [(0, 0), (1, 0), (5, 5)]"

section \<open>Properties\<close>

subsection \<open>Stale messages\<close>

lemma rx_message_stale:
  assumes "time_stamp \<le> claim_time (local_role_assignment st ! i ! source)"
  shows "rx_message net i st (source, role, probability, time_stamp) =
           (if source = i then Inl SelfMessageError
            else if net_size net \<le> source then Inl IndexError
            else Inr st)"
  using assms by (simp add: rx_message_def)

lemma rx_message_stored_time:
  assumes "rx_message net i st (source, role, probability, time_stamp) = Inr st1"
    and "i < length (local_role_assignment st)"
    and "source < length (local_role_assignment st ! i)"
  shows "time_stamp \<le> claim_time (local_role_assignment st1 ! i ! source)"
  using assms
  by (auto simp: rx_message_def Let_def claim_time_def split: if_splits)

text \<open>
  C5. A message whose time stamp is not newer than the one node \<open>i\<close> has stored for its
  source changes nothing: the state after it is the state before it (a message of the
  node itself stops the program first, as every such message does). In particular a
  message that was received once changes nothing when it is received again.
\<close>

theorem stale_message_no_change:
  "(time_stamp \<le> claim_time (local_role_assignment st ! i ! source) \<longrightarrow>
      rx_message net i st (source, role, probability, time_stamp) =
        (if source = i then Inl SelfMessageError
         else if net_size net \<le> source then Inl IndexError
         else Inr st)) \<and>
   (i < length (local_role_assignment st) \<and>
    source < length (local_role_assignment st ! i) \<and>
    rx_message net i st (source, role, probability, time_stamp) = Inr st1 \<longrightarrow>
      rx_message net i st1 (source, role, probability, time_stamp) = Inr st1)"
proof (intro conjI impI)
  assume "time_stamp \<le> claim_time (local_role_assignment st ! i ! source)"
  then show "rx_message net i st (source, role, probability, time_stamp) =
        (if source = i then Inl SelfMessageError
         else if net_size net \<le> source then Inl IndexError
         else Inr st)"
    by (rule rx_message_stale)
next
  assume a: "i < length (local_role_assignment st) \<and>
    source < length (local_role_assignment st ! i) \<and>
    rx_message net i st (source, role, probability, time_stamp) = Inr st1"
  then have stale: "time_stamp \<le> claim_time (local_role_assignment st1 ! i ! source)"
    using rx_message_stored_time by blast
  from a have "source \<noteq> i" "\<not> net_size net \<le> source"
    by (auto simp: rx_message_def split: if_splits)
  with rx_message_stale [OF stale]
  show "rx_message net i st1 (source, role, probability, time_stamp) = Inr st1"
    by simp
qed

theorem stale_message_no_change_witness:
  "- 1 \<le> claim_time (local_role_assignment (init_state pair_net) ! 0 ! 1) \<and>
   rx_message pair_net 0 (init_state pair_net) (1, 0, 1 / 2, - 1) = Inr (init_state pair_net) \<and>
   rx_message pair_net 0 (init_state pair_net) (1, 0, 1 / 2, 0) = Inr pair_after_rx \<and>
   rx_message pair_net 0 pair_after_rx (1, 0, 1 / 2, 0) = Inr pair_after_rx"
proof -
  have first: "rx_message pair_net 0 (init_state pair_net) (1, 0, 1 / 2, 0) = Inr pair_after_rx"
    by code_simp
  have dims: "0 < length (local_role_assignment (init_state pair_net))"
    "1 < length (local_role_assignment (init_state pair_net) ! 0)"
    by code_simp+
  have old: "- 1 \<le> claim_time (local_role_assignment (init_state pair_net) ! 0 ! 1)"
    by code_simp
  have size: "\<not> net_size pair_net \<le> 1"
    by code_simp
  from stale_message_no_change [of "- 1" "init_state pair_net" 0 1 pair_net 0 "1 / 2"] old size
  have "rx_message pair_net 0 (init_state pair_net) (1, 0, 1 / 2, - 1) = Inr (init_state pair_net)"
    by simp
  moreover from stale_message_no_change
    [of 0 "init_state pair_net" 0 1 pair_net 0 "1 / 2" pair_after_rx] first dims
  have "rx_message pair_net 0 pair_after_rx (1, 0, 1 / 2, 0) = Inr pair_after_rx"
    by simp
  ultimately show ?thesis using first old by simp
qed

subsection \<open>The start of the run\<close>

lemma argmax_less: "xs \<noteq> [] \<Longrightarrow> argmax xs < length xs"
  by (induction xs rule: argmax.induct) (auto simp: Let_def)

lemma argmax_max: "i < length xs \<Longrightarrow> xs ! i \<le> xs ! argmax xs"
proof (induction xs arbitrary: i rule: argmax.induct)
  case 1
  then show ?case by simp
next
  case (2 x)
  then show ?case by simp
next
  case (3 x y ys)
  show ?case
  proof (cases i)
    case 0
    then show ?thesis by (simp add: Let_def)
  next
    case (Suc k)
    with 3 have "(y # ys) ! k \<le> (y # ys) ! argmax (y # ys)" by simp
    with Suc show ?thesis by (auto simp: Let_def)
  qed
qed

lemma argmax_first: "i < argmax xs \<Longrightarrow> xs ! i < xs ! argmax xs"
proof (induction xs arbitrary: i rule: argmax.induct)
  case 1
  then show ?case by simp
next
  case (2 x)
  then show ?case by simp
next
  case (3 x y ys)
  show ?case
  proof (cases i)
    case 0
    with 3(2) show ?thesis by (auto simp: Let_def split: if_splits)
  next
    case (Suc k)
    with 3(2) have "k < argmax (y # ys)" by (auto simp: Let_def split: if_splits)
    with 3(1) have "(y # ys) ! k < (y # ys) ! argmax (y # ys)" by simp
    with Suc 3(2) show ?thesis by (auto simp: Let_def split: if_splits)
  qed
qed

lemma length_deliver: "length (deliver rx ts) = length rx"
  unfolding deliver_def
  by (induction ts arbitrary: rx) (auto split: prod.splits)

lemma deliver_Cons:
  "deliver rx ((transmitter, target, m) # ts) = deliver (rx[target := rx ! target @ [m]]) ts"
  by (simp add: deliver_def)

lemma deliver_nth:
  "t < length rx \<Longrightarrow>
     deliver rx ts ! t = rx ! t @ map (\<lambda>x. snd (snd x)) (filter (\<lambda>x. fst (snd x) = t) ts)"
proof (induction ts arbitrary: rx)
  case Nil
  then show ?case by (simp add: deliver_def)
next
  case (Cons x ts)
  obtain tr tg m where x: "x = (tr, tg, m)" by (cases x)
  from Cons.prems have "t < length (rx[tg := rx ! tg @ [m]])" by simp
  from Cons.IH [OF this] Cons.prems show ?case
    by (auto simp: x deliver_Cons nth_list_update)
qed

lemma filter_eq_distinct:
  "distinct xs \<Longrightarrow> filter (\<lambda>t. t = j) xs = (if j \<in> set xs then [j] else [])"
  by (induction xs) auto

lemma inbox_of_broadcast:
  assumes "\<forall>s\<in>set ss. distinct (cl s)"
  shows "map (\<lambda>x. snd (snd x))
           (filter (\<lambda>x. fst (snd x) = j) (concat (map (\<lambda>s. map (\<lambda>t. (s, t, f s)) (cl s)) ss)))
         = map f (filter (\<lambda>s. j \<in> set (cl s)) ss)"
  using assms
proof (induction ss)
  case Nil
  then show ?case by simp
next
  case (Cons s ss)
  have "map (\<lambda>x. snd (snd x)) (filter (\<lambda>x. fst (snd x) = j) (map (\<lambda>t. (s, t, f s)) (cl s)))
      = map (\<lambda>t. f s) (filter (\<lambda>t. t = j) (cl s))"
    by (simp add: filter_map comp_def)
  also have "\<dots> = (if j \<in> set (cl s) then [f s] else [])"
    using Cons.prems by (simp add: filter_eq_distinct)
  finally show ?case using Cons by simp
qed

lemma sent_by_one:
  assumes "distinct ss"
  shows "filter (\<lambda>x. fst x = i \<and> fst (snd x) = j)
           (concat (map (\<lambda>s. map (\<lambda>t. (s, t, f s)) (cl s)) ss))
         = (if i \<in> set ss then map (\<lambda>t. (i, t, f i)) (filter (\<lambda>t. t = j) (cl i)) else [])"
  using assms
proof (induction ss)
  case Nil
  then show ?case by simp
next
  case (Cons s ss)
  have here: "filter (\<lambda>x. fst x = i \<and> fst (snd x) = j) (map (\<lambda>t. (s, t, f s)) (cl s))
      = (if s = i then map (\<lambda>t. (i, t, f i)) (filter (\<lambda>t. t = j) (cl i)) else [])"
    by (auto simp: filter_map comp_def)
  from Cons show ?case by (auto simp: here)
qed

lemma init_nth:
  assumes "i < net_size net" "j < net_size net"
  shows "local_role_assignment (init_state net) ! i ! j =
     (if j = i then (int (initial_roles net ! i), pref_dist net ! i ! (initial_roles net ! i), 0)
      else (- 1, 0, - 1))"
  using assms by (simp add: init_state_def)

lemma wf_networkD:
  assumes "wf_network net"
  shows "length (connection_lists net) = net_size net"
    and "s < net_size net \<Longrightarrow> distinct (connection_lists net ! s)"
    and "s < net_size net \<Longrightarrow> t \<in> set (connection_lists net ! s) \<Longrightarrow> t < net_size net"
    and "length (pref_dist net) = net_size net"
    and "s < net_size net \<Longrightarrow> length (pref_dist net ! s) = net_size net"
    and "s < net_size net \<Longrightarrow> p \<in> set (pref_dist net ! s) \<Longrightarrow> 0 \<le> p \<and> p < 1"
    and "length (neighbors_send net) = net_size net"
    and "s < net_size net \<Longrightarrow> length (neighbors_send net ! s) = net_size net"
    and "s < net_size net \<Longrightarrow> j < net_size net \<Longrightarrow> t \<in> set (neighbors_send net ! s ! j)
           \<Longrightarrow> t < net_size net"
  using assms unfolding wf_network_def Let_def Ball_def atLeastLessThan_iff
  by (fast intro: le0)+

text \<open>
  C10. At the start node \<open>i\<close> holds the role with the highest score of its own
  preference row, stored in its own entry with that score and time stamp 0; its entry for
  every other node is (-1, 0, -1). Before the first iteration node \<open>i\<close> sends exactly
  one message, its own first claim, to each node of its connection list, so the inbox of
  \<open>j\<close> holds one such message per neighbour.
\<close>

theorem initial_claims_and_broadcast:
  assumes "wf_network net" and "i < net_size net" and "j < net_size net"
  shows "local_role_assignment (init_state net) ! i ! j =
           (if j = i
            then (int (argmax (pref_dist net ! i)),
                  pref_dist net ! i ! argmax (pref_dist net ! i), 0)
            else (- 1, 0, - 1)) \<and>
         (\<forall>r<net_size net. pref_dist net ! i ! r \<le> pref_dist net ! i ! argmax (pref_dist net ! i)) \<and>
         initial_message net i =
           (i, int (argmax (pref_dist net ! i)), pref_dist net ! i ! argmax (pref_dist net ! i), 0) \<and>
         filter (\<lambda>x. fst x = i \<and> fst (snd x) = j) (initial_transmissions net) =
           (if j \<in> set (connection_lists net ! i) then [(i, j, initial_message net i)] else []) \<and>
         message_rx (init_state net) ! j =
           map (initial_message net)
             (filter (\<lambda>s. j \<in> set (connection_lists net ! s)) [0..<net_size net])"
proof -
  note wf = wf_networkD [OF assms(1)]
  have ir: "initial_roles net ! i = argmax (pref_dist net ! i)"
    using wf(4) assms(2) by (simp add: initial_roles_def)
  have dist: "\<forall>s\<in>set [0..<net_size net]. distinct (connection_lists net ! s)"
    using wf(2) by simp
  have c1: "local_role_assignment (init_state net) ! i ! j =
           (if j = i
            then (int (argmax (pref_dist net ! i)),
                  pref_dist net ! i ! argmax (pref_dist net ! i), 0)
            else (- 1, 0, - 1))"
    using init_nth [OF assms(2,3)] ir by simp
  have c2: "\<forall>r<net_size net. pref_dist net ! i ! r \<le> pref_dist net ! i ! argmax (pref_dist net ! i)"
    using wf(5) [OF assms(2)] argmax_max [of _ "pref_dist net ! i"] by simp
  have c3: "initial_message net i =
           (i, int (argmax (pref_dist net ! i)), pref_dist net ! i ! argmax (pref_dist net ! i), 0)"
    by (simp add: initial_message_def ir)
  have "filter (\<lambda>x. fst x = i \<and> fst (snd x) = j) (initial_transmissions net) =
      map (\<lambda>t. (i, t, initial_message net i)) (filter (\<lambda>t. t = j) (connection_lists net ! i))"
    unfolding initial_transmissions_def
    using sent_by_one [of "[0..<net_size net]" i j "initial_message net" "\<lambda>s. connection_lists net ! s"]
      assms(2) by simp
  then have c4: "filter (\<lambda>x. fst x = i \<and> fst (snd x) = j) (initial_transmissions net) =
           (if j \<in> set (connection_lists net ! i) then [(i, j, initial_message net i)] else [])"
    using wf(2) [OF assms(2)] by (simp add: filter_eq_distinct)
  have "message_rx (init_state net) ! j =
      map (\<lambda>x. snd (snd x)) (filter (\<lambda>x. fst (snd x) = j) (initial_transmissions net))"
    using assms(3) by (simp add: init_state_def deliver_nth)
  also have "\<dots> = map (initial_message net)
             (filter (\<lambda>s. j \<in> set (connection_lists net ! s)) [0..<net_size net])"
    unfolding initial_transmissions_def
    by (rule inbox_of_broadcast [OF dist])
  finally have c5: "message_rx (init_state net) ! j =
           map (initial_message net)
             (filter (\<lambda>s. j \<in> set (connection_lists net ! s)) [0..<net_size net])" .
  from c1 c2 c3 c4 c5 show ?thesis by (intro conjI)
qed

theorem initial_claims_and_broadcast_witness:
  "wf_network pair_net \<and> (0::nat) < net_size pair_net \<and> (1::nat) < net_size pair_net \<and>
   local_role_assignment (init_state pair_net) ! 0 ! 1 = (- 1, 0, - 1) \<and>
   initial_message pair_net 0 = (0, 0, 1 / 2, 0) \<and>
   message_rx (init_state pair_net) ! 1 = [(0, 0, 1 / 2, 0)]"
proof -
  have h: "wf_network pair_net" "(0::nat) < net_size pair_net" "(1::nat) < net_size pair_net"
    by code_simp+
  have e: "argmax (pref_dist pair_net ! 0) = 0" "pref_dist pair_net ! 0 ! 0 = 1 / 2"
    "filter (\<lambda>s. 1 \<in> set (connection_lists pair_net ! s)) [0..<net_size pair_net] = [0]"
    by code_simp+
  from initial_claims_and_broadcast [OF h] h e show ?thesis by simp
qed

subsection \<open>The convergence flag of a node\<close>

lemma foldM_invariant:
  assumes "foldM f s xs = Inr s'" and "P s"
    and "\<And>a x b. x \<in> set xs \<Longrightarrow> f a x = Inr b \<Longrightarrow> P a \<Longrightarrow> P b"
  shows "P s'"
  using assms
proof (induction xs arbitrary: s)
  case Nil
  then show ?case by simp
next
  case (Cons x xs)
  from Cons.prems(1) obtain s1 where s1: "f s x = Inr s1" and rest: "foldM f s1 xs = Inr s'"
    by (auto split: sum.splits)
  from Cons.prems(3) [of x s s1] s1 Cons.prems(2) have "P s1" by simp
  show ?case
  proof (rule Cons.IH [OF rest \<open>P s1\<close>])
    fix a y b
    assume "y \<in> set xs" "f a y = Inr b" "P a"
    then show "P b" using Cons.prems(3) [of y a b] by simp
  qed
qed

lemma rx_message_converged:
  "rx_message net i st m = Inr st' \<Longrightarrow> scheme_converged st' = scheme_converged st"
  by (auto simp: rx_message_def Let_def split: prod.splits if_splits)

lemma rx_node_converged:
  assumes "rx_node net buf st i = Inr st'"
  shows "scheme_converged st' = scheme_converged st"
  using assms unfolding rx_node_def
  by (rule foldM_invariant [where P = "\<lambda>s. scheme_converged s = scheme_converged st"])
     (simp_all add: rx_message_converged)

lemma rx_all_converged:
  assumes "rx_all net buf st = Inr st'"
  shows "scheme_converged st' = scheme_converged st"
  using assms unfolding rx_all_def
  by (rule foldM_invariant [where P = "\<lambda>s. scheme_converged s = scheme_converged st"])
     (simp_all add: rx_node_converged)

lemma role_change_converged:
  "role_change net i st = Inr st' \<Longrightarrow> scheme_converged st' = scheme_converged st"
  by (auto simp: role_change_def Let_def split: if_splits)

lemma change_all_converged:
  assumes "change_all net st = Inr st'"
  shows "scheme_converged st' = scheme_converged st"
  using assms unfolding change_all_def
  by (rule foldM_invariant [where P = "\<lambda>s. scheme_converged s = scheme_converged st"])
     (auto simp: change_node_def role_change_converged split: if_splits)

lemma round_step_parts:
  assumes "round_step net st = Inr st'"
  obtains st2 st3 where
    "rx_all net (message_rx st)
       (st\<lparr>iter_count := iter_count st + 1, message_rx := replicate (net_size net) []\<rparr>) = Inr st2"
    and "change_all net st2 = Inr st3"
    and "st' = check_converged net (transmit net st3)"
  using assms by (auto simp: round_step_def Let_def split: sum.splits)

text \<open>
  C2 says that the flag of node \<open>i\<close> holds after an iteration exactly when every role has
  one node in the table of \<open>i\<close>. The script tests only nodes whose flag is still off
  (line 363), so a flag that is on stays on. On the line network node 1 has its flag on
  after the first iteration; the second iteration leaves role 1 without a node and role 2
  with two nodes in its table, and the flag is still on.
\<close>

theorem converged_flag_not_retested:
  "round_step line_net (init_state line_net) = Inr line_round1 \<and>
   round_step line_net line_round1 = Inr line_round2 \<and>
   scheme_converged line_round2 ! 1 \<and>
   \<not> one_node_per_role line_net line_round2 1"
  by code_simp

text \<open>
  C2 as amended: after an iteration the flag of node \<open>i\<close> is on exactly when it was on
  before the iteration or every role has exactly one node in the table of \<open>i\<close> after it.
\<close>

theorem converged_flag_is_sticky:
  assumes "round_step net st = Inr st'" and "i < net_size net"
  shows "scheme_converged st' ! i = (scheme_converged st ! i \<or> one_node_per_role net st' i)"
proof -
  from assms(1) obtain st2 st3 where
    rx: "rx_all net (message_rx st)
       (st\<lparr>iter_count := iter_count st + 1, message_rx := replicate (net_size net) []\<rparr>) = Inr st2"
    and ch: "change_all net st2 = Inr st3"
    and st': "st' = check_converged net (transmit net st3)"
    by (rule round_step_parts)
  have "scheme_converged (transmit net st3) = scheme_converged st"
    using rx_all_converged [OF rx] change_all_converged [OF ch] by (simp add: transmit_def)
  moreover have "one_node_per_role net st' i = one_node_per_role net (transmit net st3) i"
    by (simp add: st' one_node_per_role_def check_converged_def)
  ultimately show ?thesis
    using assms(2) by (auto simp: st' check_converged_def)
qed

theorem converged_flag_is_sticky_witness:
  "round_step line_net line_round1 = Inr line_round2 \<and> (1::nat) < net_size line_net \<and>
   scheme_converged line_round1 ! 1 \<and> scheme_converged line_round2 ! 1"
proof -
  have h: "round_step line_net line_round1 = Inr line_round2" "(1::nat) < net_size line_net"
    and b: "scheme_converged line_round1 ! 1"
    by code_simp+
  from converged_flag_is_sticky [OF h] b h show ?thesis by simp
qed

subsection \<open>Changing the role\<close>

lemma eliminate_taken_length: "length (eliminate_taken b t js) = length t"
  unfolding eliminate_taken_def by (induction js arbitrary: t) auto

lemma eliminate_taken_nth:
  "r < length t \<Longrightarrow>
     eliminate_taken b t js ! r = (if r \<in> set js \<and> b ! r \<noteq> [] then - 1 else t ! r)"
  unfolding eliminate_taken_def
proof (induction js arbitrary: t)
  case Nil
  then show ?case by simp
next
  case (Cons j js)
  then show ?case by (cases "j = r") (auto simp: nth_list_update)
qed

lemma pref_dist_temp_nth:
  assumes "length p = n" and "ro < n" and "r < n"
  shows "eliminate_taken b (p[ro := - 1]) [0..<n] ! r =
           (if r = ro \<or> b ! r \<noteq> [] then - 1 else p ! r)"
  using assms by (simp add: eliminate_taken_nth nth_list_update)

lemma role_change_Inr:
  assumes ro: "0 \<le> claim_role (local_role_assignment st ! i ! i)"
      "claim_role (local_role_assignment st ! i ! i) < int (net_size net)"
    and mem: "i \<in> set (local_node_assignment st ! i ! nat (claim_role (local_role_assignment st ! i ! i)))"
  shows "role_change net i st =
    (let ro = nat (claim_role (local_role_assignment st ! i ! i));
         buckets = local_node_assignment st ! i;
         pref_dist_temp = eliminate_taken buckets ((pref_dist net ! i)[ro := - 1]) [0..<net_size net];
         role_new = argmax pref_dist_temp
     in if pref_dist_temp ! role_new < 0 then Inl NoAvailableRoleError
        else Inr (st\<lparr>
               change_flag := (change_flag st)[i := False],
               local_node_assignment := (local_node_assignment st)
                 [i := (buckets[ro := remove1 i (buckets ! ro)])
                    [role_new := (buckets[ro := remove1 i (buckets ! ro)]) ! role_new @ [i]]],
               local_role_assignment := (local_role_assignment st)
                 [i := (local_role_assignment st ! i)
                    [i := (int role_new, pref_dist net ! i ! role_new, iter_count st)]],
               transmit_flag := (transmit_flag st)[i := (transmit_flag st ! i)[i := True]]\<rparr>))"
  using assms by (simp add: role_change_def Let_def in_range_def py_index_def)

text \<open>
  C7. A node that changes its role takes the available role with the highest score of
  its preference row, stores it in its own entry with that score and the number of the
  current iteration as time stamp, and sets its own transmit flag. The program stops with
  \<open>NoAvailableRoleError\<close> exactly when no role is available.
\<close>

theorem role_change_picks_best_available:
  assumes wf: "wf_network net" and i: "i < net_size net"
    and ro: "0 \<le> claim_role (local_role_assignment st ! i ! i)"
      "claim_role (local_role_assignment st ! i ! i) < int (net_size net)"
    and mem: "i \<in> set (local_node_assignment st ! i ! nat (claim_role (local_role_assignment st ! i ! i)))"
    and dims: "i < length (local_role_assignment st)" "i < length (local_role_assignment st ! i)"
      "i < length (transmit_flag st)" "i < length (transmit_flag st ! i)"
  shows "(role_change net i st = Inl NoAvailableRoleError \<longleftrightarrow> (\<forall>r. \<not> available net st i r)) \<and>
         ((\<exists>r. available net st i r) \<longrightarrow>
            (\<exists>st' role_new.
               role_change net i st = Inr st' \<and>
               available net st i role_new \<and>
               (\<forall>c. available net st i c \<longrightarrow>
                  pref_dist net ! i ! c \<le> pref_dist net ! i ! role_new) \<and>
               local_role_assignment st' ! i ! i =
                 (int role_new, pref_dist net ! i ! role_new, iter_count st) \<and>
               transmit_flag st' ! i ! i))"
proof -
  define n where "n = net_size net"
  define p where "p = pref_dist net ! i"
  define ro where "ro = nat (claim_role (local_role_assignment st ! i ! i))"
  define b where "b = local_node_assignment st ! i"
  define T where "T = eliminate_taken b (p[ro := - 1]) [0..<n]"
  define a where "a = argmax T"
  have lenp: "length p = n"
    using wf_networkD(5) [OF wf i] by (simp add: p_def n_def)
  have pos: "0 \<le> p ! r" if "r < n" for r
  proof -
    from that lenp have "p ! r \<in> set (pref_dist net ! i)" by (simp add: p_def)
    from wf_networkD(6) [OF wf i this] show ?thesis by simp
  qed
  have ron: "ro < n" using ro by (simp add: ro_def n_def)
  have lenT: "length T = n" by (simp add: T_def eliminate_taken_length lenp)
  have av: "available net st i r \<longleftrightarrow> r < n \<and> r \<noteq> ro \<and> b ! r = []" for r
    using ro by (auto simp: available_def n_def ro_def b_def)
  have Tnth: "T ! r = (if available net st i r then p ! r else - 1)" if "r < n" for r
    using pref_dist_temp_nth [OF lenp ron that, of b] that by (simp add: T_def av)
  have "0 < n" using i by (simp add: n_def)
  with lenT have an: "a < n" using argmax_less [of T] by (auto simp: a_def)
  have amax: "T ! r \<le> T ! a" if "r < n" for r
    using argmax_max [of r T] that lenT by (simp add: a_def)
  have rc: "role_change net i st =
      (if T ! a < 0 then Inl NoAvailableRoleError
       else Inr (st\<lparr>
               change_flag := (change_flag st)[i := False],
               local_node_assignment := (local_node_assignment st)
                 [i := (b[ro := remove1 i (b ! ro)])
                    [a := (b[ro := remove1 i (b ! ro)]) ! a @ [i]]],
               local_role_assignment := (local_role_assignment st)
                 [i := (local_role_assignment st ! i) [i := (int a, p ! a, iter_count st)]],
               transmit_flag := (transmit_flag st)[i := (transmit_flag st ! i)[i := True]]\<rparr>))"
    using role_change_Inr [OF ro mem]
    by (simp add: Let_def T_def a_def b_def ro_def p_def n_def)
  have none: "T ! a < 0" if "\<forall>r. \<not> available net st i r"
    using Tnth [OF an] that by simp
  have some: "0 \<le> T ! a \<and> available net st i a \<and>
      (\<forall>c. available net st i c \<longrightarrow> p ! c \<le> p ! a)" if c: "available net st i c" for c
  proof -
    from c have cn: "c < n" by (simp add: av)
    from Tnth [OF cn] c pos [OF cn] amax [OF cn] have nonneg: "0 \<le> T ! a" by simp
    with Tnth [OF an] have ava: "available net st i a" by (auto split: if_splits)
    have "p ! d \<le> p ! a" if d: "available net st i d" for d
    proof -
      from d have dn: "d < n" by (simp add: av)
      from Tnth [OF dn] d Tnth [OF an] ava amax [OF dn] show ?thesis by simp
    qed
    with nonneg ava show ?thesis by blast
  qed
  have first: "role_change net i st = Inl NoAvailableRoleError \<longleftrightarrow> (\<forall>r. \<not> available net st i r)"
  proof
    assume e: "role_change net i st = Inl NoAvailableRoleError"
    show "\<forall>r. \<not> available net st i r"
    proof (rule ccontr)
      assume "\<not> (\<forall>r. \<not> available net st i r)"
      then obtain c where "available net st i c" by blast
      from some [OF this] have "0 \<le> T ! a" by simp
      with e rc show False by simp
    qed
  next
    assume "\<forall>r. \<not> available net st i r"
    from none [OF this] rc show "role_change net i st = Inl NoAvailableRoleError" by simp
  qed
  have second: "\<exists>st' role_new.
               role_change net i st = Inr st' \<and>
               available net st i role_new \<and>
               (\<forall>c. available net st i c \<longrightarrow>
                  pref_dist net ! i ! c \<le> pref_dist net ! i ! role_new) \<and>
               local_role_assignment st' ! i ! i =
                 (int role_new, pref_dist net ! i ! role_new, iter_count st) \<and>
               transmit_flag st' ! i ! i" if "\<exists>r. available net st i r"
  proof -
    from that obtain c where "available net st i c" by blast
    from some [OF this] have s: "0 \<le> T ! a" "available net st i a"
      "\<forall>c. available net st i c \<longrightarrow> p ! c \<le> p ! a" by simp_all
    define st' where "st' = st\<lparr>
               change_flag := (change_flag st)[i := False],
               local_node_assignment := (local_node_assignment st)
                 [i := (b[ro := remove1 i (b ! ro)])
                    [a := (b[ro := remove1 i (b ! ro)]) ! a @ [i]]],
               local_role_assignment := (local_role_assignment st)
                 [i := (local_role_assignment st ! i) [i := (int a, p ! a, iter_count st)]],
               transmit_flag := (transmit_flag st)[i := (transmit_flag st ! i)[i := True]]\<rparr>"
    from rc s(1) have "role_change net i st = Inr st'" by (simp add: st'_def)
    moreover have "local_role_assignment st' ! i ! i = (int a, p ! a, iter_count st)"
      using dims by (simp add: st'_def)
    moreover have "transmit_flag st' ! i ! i"
      using dims by (simp add: st'_def)
    ultimately show ?thesis using s(2,3) unfolding p_def by blast
  qed
  from first second show ?thesis by blast
qed

theorem role_change_picks_best_available_witness:
  "wf_network pair_net \<and> available pair_net pair_after_rx 0 1 \<and>
   role_change pair_net 0 pair_after_rx \<noteq> Inl NoAvailableRoleError \<and>
   (\<exists>st' role_new.
      role_change pair_net 0 pair_after_rx = Inr st' \<and>
      available pair_net pair_after_rx 0 role_new \<and>
      local_role_assignment st' ! 0 ! 0 =
        (int role_new, pref_dist pair_net ! 0 ! role_new, iter_count pair_after_rx) \<and>
      transmit_flag st' ! 0 ! 0)"
proof -
  have h: "wf_network pair_net" "(0::nat) < net_size pair_net"
    "0 \<le> claim_role (local_role_assignment pair_after_rx ! 0 ! 0)"
    "claim_role (local_role_assignment pair_after_rx ! 0 ! 0) < int (net_size pair_net)"
    "0 \<in> set (local_node_assignment pair_after_rx ! 0 !
        nat (claim_role (local_role_assignment pair_after_rx ! 0 ! 0)))"
    "0 < length (local_role_assignment pair_after_rx)"
    "0 < length (local_role_assignment pair_after_rx ! 0)"
    "0 < length (transmit_flag pair_after_rx)"
    "0 < length (transmit_flag pair_after_rx ! 0)"
    by code_simp+
  have av: "available pair_net pair_after_rx 0 1"
    by code_simp
  from role_change_picks_best_available [OF h] av h(1) show ?thesis
    by blast
qed

subsection \<open>What receiving changes at a node\<close>

lemma nth_nth_update_other:
  "j \<noteq> k \<Longrightarrow> xs[i := (xs ! i)[j := v]] ! i ! k = xs ! i ! k"
  by (cases "i < length xs") (simp_all add: list_update_beyond)

lemma rx_message_own_entry:
  assumes "rx_message net i st m = Inr st'"
  shows "local_role_assignment st' ! i ! i = local_role_assignment st ! i ! i"
proof -
  obtain source role probability time_stamp where m: "m = (source, role, probability, time_stamp)"
    by (cases m)
  from assms have "source \<noteq> i"
    by (auto simp: m rx_message_def split: if_splits)
  with assms show ?thesis
    by (auto simp: m rx_message_def Let_def nth_nth_update_other split: if_splits)
qed

lemma rx_message_change_flag:
  assumes "rx_message net i st m = Inr st'" and "i < length (change_flag st)"
  shows "change_flag st' ! i = (change_flag st ! i \<or> (newer st i m \<and> conflicting net st i m))"
    and "length (change_flag st') = length (change_flag st)"
  using assms
  by (auto simp: rx_message_def Let_def newer_def conflicting_def split: prod.splits if_splits)

lemma rx_message_other_flag:
  assumes "rx_message net j st m = Inr st'" and "j \<noteq> i"
  shows "change_flag st' ! i = change_flag st ! i"
  using assms
  by (auto simp: rx_message_def Let_def split: prod.splits if_splits)

lemma rx_node_other_flag:
  assumes "rx_node net buf st j = Inr st'" and "j \<noteq> i"
  shows "change_flag st' ! i = change_flag st ! i"
  using assms(1) unfolding rx_node_def
  by (rule foldM_invariant [where P = "\<lambda>s. change_flag s ! i = change_flag st ! i"])
     (simp_all add: rx_message_other_flag [OF _ assms(2)])

lemma foldM_append:
  "foldM f s (xs @ ys) = (case foldM f s xs of Inl e \<Rightarrow> Inl e | Inr s1 \<Rightarrow> foldM f s1 ys)"
  by (induction xs arbitrary: s) (auto split: sum.splits)

lemma upt_split: "i < n \<Longrightarrow> [0..<n] = [0..<i] @ i # [Suc i..<n]"
  by (metis le_add_diff_inverse less_imp_le_nat upt_add_eq_append upt_conv_Cons zero_le)

lemma rx_message_other_row:
  assumes "rx_message net j st m = Inr st'" and "j \<noteq> i"
  shows "local_role_assignment st' ! i = local_role_assignment st ! i"
    and "local_node_assignment st' ! i = local_node_assignment st ! i"
    and "transmit_flag st' ! i = transmit_flag st ! i"
  using assms
  by (auto simp: rx_message_def Let_def split: prod.splits if_splits)

lemma rx_message_lengths:
  assumes "rx_message net j st m = Inr st'"
  shows "length (change_flag st') = length (change_flag st)"
    and "length (local_role_assignment st') = length (local_role_assignment st)"
    and "length (local_node_assignment st') = length (local_node_assignment st)"
    and "length (transmit_flag st') = length (transmit_flag st)"
  using assms
  by (auto simp: rx_message_def Let_def split: prod.splits if_splits)

lemma rx_node_other_row:
  assumes "rx_node net buf st j = Inr st'" and "j \<noteq> i"
  shows "local_role_assignment st' ! i = local_role_assignment st ! i"
  using assms(1) unfolding rx_node_def
  by (rule foldM_invariant
        [where P = "\<lambda>s. local_role_assignment s ! i = local_role_assignment st ! i"])
     (simp_all add: rx_message_other_row(1) [OF _ assms(2)])

lemma rx_node_flag_length:
  assumes "rx_node net buf st j = Inr st'"
  shows "length (change_flag st') = length (change_flag st)"
  using assms(1) unfolding rx_node_def
  by (rule foldM_invariant [where P = "\<lambda>s. length (change_flag s) = length (change_flag st)"])
     (simp_all add: rx_message_lengths(1))

lemma rx_nodes_other:
  assumes "foldM (rx_node net buf) st js = Inr st'" and "i \<notin> set js"
  shows "change_flag st' ! i = change_flag st ! i"
    and "length (change_flag st') = length (change_flag st)"
    and "local_role_assignment st' ! i = local_role_assignment st ! i"
proof -
  have "change_flag st' ! i = change_flag st ! i \<and>
        length (change_flag st') = length (change_flag st) \<and>
        local_role_assignment st' ! i = local_role_assignment st ! i"
  proof (rule foldM_invariant [OF assms(1),
        where P = "\<lambda>s. change_flag s ! i = change_flag st ! i \<and>
          length (change_flag s) = length (change_flag st) \<and>
          local_role_assignment s ! i = local_role_assignment st ! i"])
    show "change_flag st ! i = change_flag st ! i \<and>
        length (change_flag st) = length (change_flag st) \<and>
        local_role_assignment st ! i = local_role_assignment st ! i" by simp
  next
    fix a j b
    assume j: "j \<in> set js" and step: "rx_node net buf a j = Inr b"
      and a: "change_flag a ! i = change_flag st ! i \<and>
          length (change_flag a) = length (change_flag st) \<and>
          local_role_assignment a ! i = local_role_assignment st ! i"
    from j assms(2) have "j \<noteq> i" by auto
    from rx_node_other_flag [OF step this] rx_node_flag_length [OF step]
      rx_node_other_row [OF step this] a
    show "change_flag b ! i = change_flag st ! i \<and>
          length (change_flag b) = length (change_flag st) \<and>
          local_role_assignment b ! i = local_role_assignment st ! i" by simp
  qed
  then show "change_flag st' ! i = change_flag st ! i"
    and "length (change_flag st') = length (change_flag st)"
    and "local_role_assignment st' ! i = local_role_assignment st ! i" by simp_all
qed

subsection \<open>The end of the run\<close>

text \<open>
  C1 says that the nodes hold pairwise different roles when the main loop ends because
  all nodes have converged. Two connected nodes with the same preference row both start
  with role 0 at probability 1/2. In the first iteration each receives the claim of the
  other, the test of line 318 (\<open>\<ge>\<close>) holds for both, both give up role 0 and both take
  role 1. Each table then lists one node per role, both flags are set and the loop ends
  with both nodes on role 1.
\<close>

theorem equal_scores_end_with_shared_role:
  "build_network (connections_of [(0, 0), (1, 0)]) [[1 / 2, 1 / 4], [1 / 2, 1 / 4]] = Inr pair_net \<and>
   simulate 1 pair_net (init_state pair_net) = Some (Inr pair_round1) \<and>
   all_converged pair_round1 \<and>
   own_roles pair_net pair_round1 = [1, 1]"
  by code_simp

subsection \<open>The gradient map\<close>

lemma ball_mono: "ball cl s k \<subseteq> ball cl s (k + j)"
  by (induction j) auto

lemma ball_mono_le: "j \<le> k \<Longrightarrow> ball cl s j \<subseteq> ball cl s k"
  using ball_mono [of cl s j "k - j"] by simp

lemma source_in_ball: "s \<in> ball cl s k"
  using ball_mono [of cl s 0 k] by simp

lemma sphere_subset_ball: "sphere cl s k \<subseteq> ball cl s k"
  by (auto simp: sphere_def)

lemma sphere_unique:
  assumes "n \<in> sphere cl s j" and "n \<in> sphere cl s k"
  shows "j = k"
proof (rule ccontr)
  assume "j \<noteq> k"
  then consider "j < k" | "k < j" by linarith
  then show False
  proof cases
    case 1
    then have "j \<le> k - 1" "k \<noteq> 0" by simp_all
    with assms(1) ball_mono_le [of j "k - 1" cl s] sphere_subset_ball [of cl s j]
    have "n \<in> ball cl s (k - 1)" by auto
    with assms(2) \<open>k \<noteq> 0\<close> show False by (simp add: sphere_def)
  next
    case 2
    then have "k \<le> j - 1" "j \<noteq> 0" by simp_all
    with assms(2) ball_mono_le [of k "j - 1" cl s] sphere_subset_ball [of cl s k]
    have "n \<in> ball cl s (j - 1)" by auto
    with assms(1) \<open>j \<noteq> 0\<close> show False by (simp add: sphere_def)
  qed
qed

lemma ball_sphere: "n \<in> ball cl s k \<Longrightarrow> \<exists>j\<le>k. n \<in> sphere cl s j"
proof (induction k)
  case 0
  then show ?case by (auto simp: sphere_def)
next
  case (Suc k)
  show ?case
  proof (cases "n \<in> ball cl s k")
    case True
    with Suc.IH obtain j where "j \<le> k" "n \<in> sphere cl s j" by blast
    then show ?thesis by (auto intro: exI [of _ j])
  next
    case False
    with Suc.prems have "n \<in> sphere cl s (Suc k)" by (simp add: sphere_def)
    then show ?thesis by blast
  qed
qed

lemma sphere_Suc:
  "sphere cl s (Suc k) = (\<Union>m\<in>sphere cl s k. set (cl ! m)) - ball cl s k"
proof -
  have "n \<in> ball cl s k" if "m \<in> ball cl s k" "m \<notin> sphere cl s k" "n \<in> set (cl ! m)" for m n
  proof (cases k)
    case 0
    with that show ?thesis by (simp add: sphere_def)
  next
    case (Suc j)
    with that have "m \<in> ball cl s j" by (simp add: sphere_def)
    with that(3) Suc show ?thesis by auto
  qed
  then show ?thesis
    using sphere_subset_ball [of cl s k] by (auto simp: sphere_def)
qed

lemma ball_stable:
  assumes "sphere cl s (Suc k) = {}"
  shows "ball cl s (k + j) = ball cl s k"
proof (induction j)
  case 0
  then show ?case by simp
next
  case (Suc j)
  from assms have "ball cl s (Suc k) = ball cl s k"
    by (auto simp: sphere_def)
  then have "(\<Union>n\<in>ball cl s k. set (cl ! n)) \<subseteq> ball cl s k" by auto
  with Suc show ?case by auto
qed

lemma ball_bound:
  assumes "\<And>i j. i < length cl \<Longrightarrow> j \<in> set (cl ! i) \<Longrightarrow> j < length cl" and "s < length cl"
  shows "n \<in> ball cl s k \<Longrightarrow> n < length cl"
proof (induction k arbitrary: n)
  case 0
  with assms(2) show ?case by simp
next
  case (Suc k)
  then show ?case using assms(1) by auto
qed

lemma marked_row_empty: "marked_row source pg row {} = row"
  by (simp add: marked_row_def map_nth)

lemma marked_row_length: "length (marked_row source pg row X) = length row"
  by (simp add: marked_row_def)

lemma marked_row_nth:
  "n < length row \<Longrightarrow> marked_row source pg row X ! n =
     (if n \<in> X \<and> n \<noteq> source \<and> row ! n = 0 then int pg + 1 else row ! n)"
  by (simp add: marked_row_def)

lemma visit_marked:
  assumes "x < length row"
  shows "visit source pg (marked_row source pg row X, tt) x =
           Inr (marked_row source pg row (insert x X),
                if x \<notin> X \<and> x \<noteq> source \<and> row ! x = 0 then tt @ [x] else tt)"
proof -
  have new: "(marked_row source pg row X)[x := int pg + 1] = marked_row source pg row (insert x X)"
    if "x \<notin> X" "x \<noteq> source" "row ! x = 0"
    using that assms
    by (intro nth_equalityI) (auto simp: marked_row_length marked_row_nth nth_list_update)
  have old: "marked_row source pg row (insert x X) = marked_row source pg row X"
    if "x \<in> X \<or> x = source \<or> row ! x \<noteq> 0"
    using that assms
    by (intro nth_equalityI) (auto simp: marked_row_length marked_row_nth)
  have zero: "marked_row source pg row X ! x = 0 \<longleftrightarrow> row ! x = 0 \<and> (x \<notin> X \<or> x = source)"
    using assms by (auto simp: marked_row_nth)
  show ?thesis
  proof (cases "x \<notin> X \<and> x \<noteq> source \<and> row ! x = 0")
    case True
    with zero assms new show ?thesis
      by (simp add: visit_def marked_row_length)
  next
    case False
    with zero assms old show ?thesis
      by (auto simp: visit_def marked_row_length)
  qed
qed

lemma visits_effect:
  assumes "\<forall>x\<in>set xs. x < length row"
  shows "\<exists>tt'. foldM (visit source pg) (marked_row source pg row X, tt) xs =
                 Inr (marked_row source pg row (X \<union> set xs), tt') \<and>
               set tt' = set tt \<union> {n \<in> set xs. n \<notin> X \<and> n \<noteq> source \<and> row ! n = 0}"
  using assms
proof (induction xs arbitrary: X tt)
  case Nil
  then show ?case by simp
next
  case (Cons x xs)
  let ?tt1 = "if x \<notin> X \<and> x \<noteq> source \<and> row ! x = 0 then tt @ [x] else tt"
  from Cons.prems have x: "x < length row" and xs: "\<forall>x\<in>set xs. x < length row" by simp_all
  from Cons.IH [OF xs, of "insert x X" ?tt1] obtain tt' where
    run: "foldM (visit source pg) (marked_row source pg row (insert x X), ?tt1) xs =
            Inr (marked_row source pg row (insert x X \<union> set xs), tt')"
    and tt': "set tt' = set ?tt1 \<union>
            {n \<in> set xs. n \<notin> insert x X \<and> n \<noteq> source \<and> row ! n = 0}"
    by blast
  have "foldM (visit source pg) (marked_row source pg row X, tt) (x # xs) =
      Inr (marked_row source pg row (X \<union> set (x # xs)), tt')"
    using visit_marked [OF x, of source pg X tt] run by simp
  moreover have "set tt' = set tt \<union>
      {n \<in> set (x # xs). n \<notin> X \<and> n \<noteq> source \<and> row ! n = 0}"
    using tt' by auto
  ultimately show ?case by blast
qed

lemma expand_effect:
  assumes "\<forall>t\<in>set ts. t < length cl \<and> (\<forall>x\<in>set (cl ! t). x < length row)"
  shows "\<exists>tt'. foldM (expand_target cl source pg) (marked_row source pg row X, tt) ts =
                 Inr (marked_row source pg row (X \<union> (\<Union>t\<in>set ts. set (cl ! t))), tt') \<and>
               set tt' = set tt \<union>
                 {n \<in> (\<Union>t\<in>set ts. set (cl ! t)). n \<notin> X \<and> n \<noteq> source \<and> row ! n = 0}"
  using assms
proof (induction ts arbitrary: X tt)
  case Nil
  then show ?case by simp
next
  case (Cons t ts)
  from Cons.prems have t: "t < length cl" "\<forall>x\<in>set (cl ! t). x < length row"
    and ts: "\<forall>t\<in>set ts. t < length cl \<and> (\<forall>x\<in>set (cl ! t). x < length row)" by simp_all
  from visits_effect [OF t(2), of source pg X tt] obtain tt1 where
    one: "foldM (visit source pg) (marked_row source pg row X, tt) (cl ! t) =
            Inr (marked_row source pg row (X \<union> set (cl ! t)), tt1)"
    and tt1: "set tt1 = set tt \<union> {n \<in> set (cl ! t). n \<notin> X \<and> n \<noteq> source \<and> row ! n = 0}"
    by blast
  from Cons.IH [OF ts, of "X \<union> set (cl ! t)" tt1] obtain tt' where
    run: "foldM (expand_target cl source pg) (marked_row source pg row (X \<union> set (cl ! t)), tt1) ts =
            Inr (marked_row source pg row (X \<union> set (cl ! t) \<union> (\<Union>t\<in>set ts. set (cl ! t))), tt')"
    and tt': "set tt' = set tt1 \<union>
            {n \<in> (\<Union>t\<in>set ts. set (cl ! t)). n \<notin> X \<union> set (cl ! t) \<and> n \<noteq> source \<and> row ! n = 0}"
    by blast
  have eq: "X \<union> set (cl ! t) \<union> (\<Union>t\<in>set ts. set (cl ! t)) =
      X \<union> (\<Union>t\<in>set (t # ts). set (cl ! t))" by auto
  have "foldM (expand_target cl source pg) (marked_row source pg row X, tt) (t # ts) =
      Inr (marked_row source pg row (X \<union> (\<Union>t\<in>set (t # ts). set (cl ! t))), tt')"
    using one run t(1) by (simp add: expand_target_def eq)
  moreover have "set tt' = set tt \<union>
      {n \<in> (\<Union>t\<in>set (t # ts). set (cl ! t)). n \<notin> X \<and> n \<noteq> source \<and> row ! n = 0}"
    using tt' tt1 by auto
  ultimately show ?case by blast
qed

lemma expand_source_effect:
  assumes "\<forall>t\<in>set ts. t < length cl \<and> (\<forall>x\<in>set (cl ! t). x < length row)"
  shows "\<exists>tt'. expand_source cl source pg row ts =
                 Inr (marked_row source pg row (\<Union>t\<in>set ts. set (cl ! t)), tt') \<and>
               set tt' = {n \<in> (\<Union>t\<in>set ts. set (cl ! t)). n \<noteq> source \<and> row ! n = 0}"
  using expand_effect [OF assms, of source pg "{}" "[]"]
  by (simp add: expand_source_def marked_row_empty)

lemma graph_okD: "graph_ok cl \<Longrightarrow> i < length cl \<Longrightarrow> j \<in> set (cl ! i) \<Longrightarrow> j < length cl"
  unfolding graph_ok_def by fastforce

lemma ball_less: "graph_ok cl \<Longrightarrow> s < length cl \<Longrightarrow> n \<in> ball cl s k \<Longrightarrow> n < length cl"
  using ball_bound [of cl s n k] graph_okD [of cl] by blast

lemma row_ok_zero:
  assumes "row_ok cl s pg row" and "n < length cl"
  shows "row ! n = 0 \<longleftrightarrow> n = s \<or> n \<notin> ball cl s pg"
proof
  assume z: "row ! n = 0"
  show "n = s \<or> n \<notin> ball cl s pg"
  proof (rule ccontr)
    assume "\<not> (n = s \<or> n \<notin> ball cl s pg)"
    then have "n \<noteq> s" "n \<in> ball cl s pg" by simp_all
    with assms z have "n \<in> sphere cl s 0" by (auto simp: row_ok_def)
    with \<open>n \<noteq> s\<close> show False by (simp add: sphere_def)
  qed
next
  assume "n = s \<or> n \<notin> ball cl s pg"
  then show "row ! n = 0"
  proof
    assume "n = s"
    with assms source_in_ball [of s cl pg]
    have "0 \<le> row ! s" "s \<in> sphere cl s (nat (row ! s))" by (auto simp: row_ok_def)
    moreover have "s \<in> sphere cl s 0" by (simp add: sphere_def)
    ultimately have "nat (row ! s) = 0" using sphere_unique by blast
    with \<open>0 \<le> row ! s\<close> \<open>n = s\<close> show ?thesis by simp
  next
    assume "n \<notin> ball cl s pg"
    with assms show ?thesis by (simp add: row_ok_def)
  qed
qed

lemma expand_source_correct:
  assumes g: "graph_ok cl" and s: "s < length cl"
    and row: "row_ok cl s pg row" and ts: "set ts = sphere cl s pg"
  shows "\<exists>row' tt. expand_source cl s pg row ts = Inr (row', tt) \<and>
           row_ok cl s (Suc pg) row' \<and> set tt = sphere cl s (Suc pg)"
proof -
  let ?U = "\<Union>t\<in>set ts. set (cl ! t)"
  have len: "length row = length cl" using row by (simp add: row_ok_def)
  have tlt: "t < length cl" if "t \<in> set ts" for t
    using that ts sphere_subset_ball [of cl s pg] ball_less [OF g s] by blast
  have ult: "n < length cl" if "n \<in> ?U" for n
    using that tlt graph_okD [OF g] by blast
  have pre: "\<forall>t\<in>set ts. t < length cl \<and> (\<forall>x\<in>set (cl ! t). x < length row)"
  proof (intro ballI conjI)
    fix t assume t: "t \<in> set ts"
    then show "t < length cl" by (rule tlt)
    fix x assume "x \<in> set (cl ! t)"
    with graph_okD [OF g tlt [OF t]] len show "x < length row" by simp
  qed
  from expand_source_effect [OF pre, of s pg] obtain tt where
    run: "expand_source cl s pg row ts = Inr (marked_row s pg row ?U, tt)"
    and tt: "set tt = {n \<in> ?U. n \<noteq> s \<and> row ! n = 0}" by blast
  have new: "n \<in> ?U \<and> n \<noteq> s \<and> row ! n = 0 \<longleftrightarrow> n \<in> sphere cl s (Suc pg)" if "n < length cl" for n
    using row_ok_zero [OF row that] source_in_ball [of s cl pg] ts
    by (auto simp: sphere_Suc)
  have "set tt = sphere cl s (Suc pg)"
    using tt new ult by (auto simp: sphere_Suc ts)
  moreover have "row_ok cl s (Suc pg) (marked_row s pg row ?U)"
    unfolding row_ok_def
  proof (intro conjI allI impI)
    show "length (marked_row s pg row ?U) = length cl"
      by (simp add: marked_row_length len)
  next
    fix n assume n: "n < length cl" and b: "n \<in> ball cl s (Suc pg)"
    show "0 \<le> marked_row s pg row ?U ! n"
    proof (cases "n \<in> sphere cl s (Suc pg)")
      case True
      with new [OF n] n len show ?thesis by (simp add: marked_row_nth)
    next
      case False
      with b have "n \<in> ball cl s pg" by (simp add: sphere_def)
      with row n have "0 \<le> row ! n" by (simp add: row_ok_def)
      with False new [OF n] n len show ?thesis by (simp add: marked_row_nth)
    qed
    show "n \<in> sphere cl s (nat (marked_row s pg row ?U ! n))"
    proof (cases "n \<in> sphere cl s (Suc pg)")
      case True
      with new [OF n] n len have "marked_row s pg row ?U ! n = int pg + 1"
        by (simp add: marked_row_nth)
      then have "nat (marked_row s pg row ?U ! n) = Suc pg" by simp
      with True show ?thesis by simp
    next
      case False
      with b have "n \<in> ball cl s pg" by (simp add: sphere_def)
      with row n have "n \<in> sphere cl s (nat (row ! n))" by (simp add: row_ok_def)
      moreover from False new [OF n] n len have "marked_row s pg row ?U ! n = row ! n"
        by (simp add: marked_row_nth)
      ultimately show ?thesis by simp
    qed
  next
    fix n assume n: "n < length cl" and b: "n \<notin> ball cl s (Suc pg)"
    then have nb: "n \<notin> ball cl s pg" and "n \<notin> sphere cl s (Suc pg)"
      by (auto simp: sphere_def)
    with new [OF n] n len have "marked_row s pg row ?U ! n = row ! n"
      by (simp add: marked_row_nth)
    with row n nb show "marked_row s pg row ?U ! n = 0" by (simp add: row_ok_def)
  qed
  ultimately show ?thesis using run by blast
qed

lemma row_ok_final:
  assumes "row_ok cl s (Suc pg) row" and "sphere cl s (Suc pg) = {}"
  shows "row_final cl s row"
proof -
  have stable: "ball cl s (pg + j) = ball cl s pg" for j
    by (rule ball_stable [OF assms(2)])
  have "ball cl s (Suc pg) = ball cl s pg" using stable [of 1] by simp
  moreover have "n \<in> ball cl s pg" if "n \<in> ball cl s k" for n k
    using that ball_mono [of cl s k pg] stable [of k] by (auto simp: add.commute)
  ultimately have "(\<exists>k. n \<in> ball cl s k) \<longleftrightarrow> n \<in> ball cl s (Suc pg)" for n
    by blast
  with assms(1) show ?thesis
    unfolding row_ok_def row_final_def by blast
qed

lemma pool_pass_correct:
  assumes g: "graph_ok cl"
  shows "pool_ok cl pg gr pool \<Longrightarrow>
    \<exists>gr' pool' deact. pool_pass cl pg gr pool = Inr (gr', pool', deact) \<and>
      length gr' = length cl \<and> map fst pool' = map fst pool \<and>
      (\<forall>s. s \<notin> fst ` set pool \<longrightarrow> gr' ! s = gr ! s) \<and>
      set deact \<subseteq> fst ` set pool \<and>
      (\<forall>entry\<in>set pool'. row_ok cl (fst entry) (Suc pg) (gr' ! fst entry) \<and>
         (fst entry \<in> set deact \<longrightarrow> sphere cl (fst entry) (Suc pg) = {}) \<and>
         (fst entry \<notin> set deact \<longrightarrow> set (snd entry) = sphere cl (fst entry) (Suc pg)))"
proof (induction pool arbitrary: gr)
  case Nil
  then show ?case by (simp add: pool_ok_def)
next
  case (Cons entry rest)
  obtain s ts where entry: "entry = (s, ts)" by (cases entry)
  from Cons.prems have len: "length gr = length cl" and s: "s < length cl"
    and srest: "s \<notin> fst ` set rest" and drest: "distinct (map fst rest)"
    and row: "row_ok cl s pg (gr ! s)" and ts: "set ts = sphere cl s pg"
    and others: "\<forall>e\<in>set rest. fst e < length cl \<and> row_ok cl (fst e) pg (gr ! fst e) \<and>
         set (snd e) = sphere cl (fst e) pg"
    by (auto simp: pool_ok_def entry)
  from expand_source_correct [OF g s row ts] obtain row' tt where
    ex: "expand_source cl s pg (gr ! s) ts = Inr (row', tt)"
    and row': "row_ok cl s (Suc pg) row'" and tt: "set tt = sphere cl s (Suc pg)" by blast
  have "pool_ok cl pg (gr[s := row']) rest"
    unfolding pool_ok_def
  proof (intro conjI ballI)
    show "length (gr[s := row']) = length cl" using len by simp
    show "distinct (map fst rest)" by (rule drest)
  next
    fix e assume e: "e \<in> set rest"
    with srest have "fst e \<noteq> s" by auto
    then have same: "gr[s := row'] ! fst e = gr ! fst e" by simp
    from others e show "fst e < length cl" by simp
    from others e same show "row_ok cl (fst e) pg (gr[s := row'] ! fst e)" by simp
    from others e show "set (snd e) = sphere cl (fst e) pg" by simp
  qed
  from Cons.IH [OF this] obtain gr' rest' deact1 where
    rec: "pool_pass cl pg (gr[s := row']) rest = Inr (gr', rest', deact1)"
    and len': "length gr' = length cl" and keys: "map fst rest' = map fst rest"
    and frame: "\<forall>x. x \<notin> fst ` set rest \<longrightarrow> gr' ! x = gr[s := row'] ! x"
    and sub: "set deact1 \<subseteq> fst ` set rest"
    and post: "\<forall>e\<in>set rest'. row_ok cl (fst e) (Suc pg) (gr' ! fst e) \<and>
         (fst e \<in> set deact1 \<longrightarrow> sphere cl (fst e) (Suc pg) = {}) \<and>
         (fst e \<notin> set deact1 \<longrightarrow> set (snd e) = sphere cl (fst e) (Suc pg))"
    by blast
  let ?pool' = "if tt = [] then (s, ts) # rest' else (s, tt) # rest'"
  let ?deact = "if tt = [] then s # deact1 else deact1"
  have run: "pool_pass cl pg gr (entry # rest) = Inr (gr', ?pool', ?deact)"
    using s len ex rec by (simp add: entry)
  from frame srest s len have here: "gr' ! s = row'" by simp
  from sub srest have snot: "s \<notin> set deact1" by auto
  from keys have keyset: "fst ` set rest' = fst ` set rest"
    by (metis set_map)
  have c1: "map fst ?pool' = map fst (entry # rest)" using keys by (simp add: entry)
  have c2: "\<forall>x. x \<notin> fst ` set (entry # rest) \<longrightarrow> gr' ! x = gr ! x"
    using frame by (simp add: entry)
  have c3: "set ?deact \<subseteq> fst ` set (entry # rest)" using sub by (auto simp: entry)
  have c4: "\<forall>e\<in>set ?pool'. row_ok cl (fst e) (Suc pg) (gr' ! fst e) \<and>
         (fst e \<in> set ?deact \<longrightarrow> sphere cl (fst e) (Suc pg) = {}) \<and>
         (fst e \<notin> set ?deact \<longrightarrow> set (snd e) = sphere cl (fst e) (Suc pg))"
  proof
    fix e assume e: "e \<in> set ?pool'"
    show "row_ok cl (fst e) (Suc pg) (gr' ! fst e) \<and>
         (fst e \<in> set ?deact \<longrightarrow> sphere cl (fst e) (Suc pg) = {}) \<and>
         (fst e \<notin> set ?deact \<longrightarrow> set (snd e) = sphere cl (fst e) (Suc pg))"
    proof (cases "e \<in> set rest'")
      case True
      with keyset srest have "fst e \<noteq> s" by force
      with post True show ?thesis by simp
    next
      case False
      with e have "e = (if tt = [] then (s, ts) else (s, tt))" by (auto split: if_splits)
      with here row' tt snot show ?thesis by (auto split: if_splits)
    qed
  qed
  from run len' c1 c2 c3 c4 show ?case by blast
qed

lemma pool_loop_correct:
  "graph_ok cl \<Longrightarrow> pool_ok cl pg gr pool \<Longrightarrow>
   (\<forall>s<length cl. s \<notin> fst ` set pool \<longrightarrow> row_final cl s (gr ! s)) \<Longrightarrow>
   \<exists>gr'. pool_loop cl gr pool pg = Inr gr' \<and> length gr' = length cl \<and>
         (\<forall>s<length cl. row_final cl s (gr' ! s))"
proof (induction cl gr pool pg rule: pool_loop.induct)
  case (1 cl gr pool pg)
  show ?case
  proof (cases "pool = []")
    case True
    with "1.prems" show ?thesis
      by (subst pool_loop.simps) (simp add: pool_ok_def)
  next
    case False
    from pool_pass_correct [OF "1.prems"(1,2)] obtain gr' pool' deact where
      run: "pool_pass cl pg gr pool = Inr (gr', pool', deact)"
      and len': "length gr' = length cl" and keys: "map fst pool' = map fst pool"
      and frame: "\<forall>s. s \<notin> fst ` set pool \<longrightarrow> gr' ! s = gr ! s"
      and sub: "set deact \<subseteq> fst ` set pool"
      and post: "\<forall>e\<in>set pool'. row_ok cl (fst e) (Suc pg) (gr' ! fst e) \<and>
         (fst e \<in> set deact \<longrightarrow> sphere cl (fst e) (Suc pg) = {}) \<and>
         (fst e \<notin> set deact \<longrightarrow> set (snd e) = sphere cl (fst e) (Suc pg))"
      by blast
    from keys have keyset: "fst ` set pool' = fst ` set pool" by (metis set_map)
    from "1.prems"(2) have dist: "distinct (map fst pool)"
      and klt: "\<forall>e\<in>set pool. fst e < length cl" by (simp_all add: pool_ok_def)
    have ok: "pool_ok cl (pg + 1) gr' (pop_sources deact pool')"
      unfolding pool_ok_def
    proof (intro conjI ballI)
      show "length gr' = length cl" by (rule len')
      show "distinct (map fst (pop_sources deact pool'))"
        unfolding pop_sources_def using dist keys by (simp add: distinct_map_filter)
    next
      fix e assume "e \<in> set (pop_sources deact pool')"
      then have e: "e \<in> set pool'" "fst e \<notin> set deact" by (simp_all add: pop_sources_def)
      from e(1) keyset klt show "fst e < length cl" by force
      from post e show "row_ok cl (fst e) (pg + 1) (gr' ! fst e)" by simp
      from post e show "set (snd e) = sphere cl (fst e) (pg + 1)" by simp
    qed
    have fin: "\<forall>s<length cl. s \<notin> fst ` set (pop_sources deact pool') \<longrightarrow> row_final cl s (gr' ! s)"
    proof (intro allI impI)
      fix s assume s: "s < length cl" and out: "s \<notin> fst ` set (pop_sources deact pool')"
      show "row_final cl s (gr' ! s)"
      proof (cases "s \<in> fst ` set pool'")
        case False
        with keyset frame have "gr' ! s = gr ! s" by simp
        with False keyset "1.prems"(3) s show ?thesis by simp
      next
        case True
        then obtain e where e: "e \<in> set pool'" "fst e = s" by auto
        with out have "s \<in> set deact" by (force simp: pop_sources_def)
        with post e have "row_ok cl s (Suc pg) (gr' ! s)" "sphere cl s (Suc pg) = {}" by auto
        then show ?thesis by (rule row_ok_final)
      qed
    qed
    from "1.IH" [OF False run refl refl "1.prems"(1) ok fin] obtain gr'' where
      "pool_loop cl gr' (pop_sources deact pool') (pg + 1) = Inr gr''"
      "length gr'' = length cl" "\<forall>s<length cl. row_final cl s (gr'' ! s)" by blast
    with False run show ?thesis
      by (subst pool_loop.simps) simp
  qed
qed

lemma wf_connectionsD:
  assumes "wf_connections c" and "i < length c"
  shows "length (c ! i) = length c" and "c ! i ! i = 0"
    and "j < length c \<Longrightarrow> c ! i ! j = 0 \<or> c ! i ! j = 1"
    and "j < length c \<Longrightarrow> c ! j ! i = c ! i ! j"
  using assms unfolding wf_connections_def Ball_def atLeastLessThan_iff
  by (fast intro: le0)+

lemma connections_of_wf: "wf_connections (connections_of nodes_tri)"
  unfolding wf_connections_def connections_of_def
  by (auto simp: min.commute max.commute)

lemma length_connection_lists_of: "length (connection_lists_of c) = length c"
  by (simp add: connection_lists_of_def)

lemma set_connection_lists_of:
  "i < length c \<Longrightarrow> set (connection_lists_of c ! i) = {j. j < length c \<and> c ! i ! j = 1}"
  by (auto simp: connection_lists_of_def)

lemma graph_ok_connection_lists_of: "graph_ok (connection_lists_of c)"
  by (auto simp: graph_ok_def length_connection_lists_of set_connection_lists_of)

lemma sphere_as_hop_distance:
  assumes "n \<in> sphere cl s d"
  shows "hop_distance cl s n d"
proof (cases d)
  case 0
  with assms show ?thesis by (simp add: hop_distance_def sphere_def)
next
  case (Suc j)
  with assms have in_d: "n \<in> ball cl s d" and out: "n \<notin> ball cl s j"
    by (simp_all add: sphere_def del: ball.simps)
  have "n \<notin> ball cl s k" if "k < d" for k
    using that Suc out ball_mono_le [of k j cl s] by auto
  with in_d show ?thesis by (simp add: hop_distance_def)
qed

lemma init_pool_ok:
  assumes wf: "wf_connections c"
  shows "pool_ok (connection_lists_of c) 1 c
           (map (\<lambda>i. (i, connection_lists_of c ! i)) [0..<length c])"
proof -
  let ?cl = "connection_lists_of c"
  have row: "row_ok ?cl s 1 (c ! s) \<and> set (?cl ! s) = sphere ?cl s 1" if s: "s < length c" for s
  proof -
    note w = wf_connectionsD [OF wf s]
    have nb: "set (?cl ! s) = {j. j < length c \<and> c ! s ! j = 1}"
      by (rule set_connection_lists_of [OF s])
    from w(2) nb have self: "s \<notin> set (?cl ! s)" by simp
    have b1: "ball ?cl s 1 = insert s (set (?cl ! s))" unfolding One_nat_def by simp
    have b0: "ball ?cl s 0 = {s}" by simp
    have sp: "sphere ?cl s 1 = set (?cl ! s)"
      using self by (auto simp: sphere_def b1)
    have "row_ok ?cl s 1 (c ! s)"
      unfolding row_ok_def
    proof (intro conjI allI impI)
      show "length (c ! s) = length ?cl" using w(1) by (simp add: length_connection_lists_of)
    next
      fix n assume n: "n < length ?cl" and "n \<in> ball ?cl s 1"
      then consider "n = s" | "n \<in> set (?cl ! s)" by (auto simp: b1)
      then show "0 \<le> c ! s ! n"
        using w(2) nb by cases auto
      from \<open>n \<in> ball ?cl s 1\<close> consider "n = s" | "n \<in> set (?cl ! s)" by (auto simp: b1)
      then show "n \<in> sphere ?cl s (nat (c ! s ! n))"
      proof cases
        case 1
        with w(2) show ?thesis by (simp add: sphere_def)
      next
        case 2
        with nb have "c ! s ! n = 1" by simp
        with 2 sp show ?thesis by simp
      qed
    next
      fix n assume n: "n < length ?cl" and out: "n \<notin> ball ?cl s 1"
      then have "n \<notin> set (?cl ! s)" by (simp add: b1)
      with nb n have "c ! s ! n \<noteq> 1" by (simp add: length_connection_lists_of)
      with w(3) [of n] n show "c ! s ! n = 0" by (simp add: length_connection_lists_of)
    qed
    with sp show ?thesis by simp
  qed
  show ?thesis
    unfolding pool_ok_def
    using row by (auto simp: length_connection_lists_of comp_def)
qed

lemma gradients_of_final:
  assumes wf: "wf_connections c"
  shows "\<exists>g. gradients_of c = Inr g \<and> length g = length c \<and>
           (\<forall>s<length c. row_final (connection_lists_of c) s (g ! s))"
proof -
  let ?cl = "connection_lists_of c"
  let ?pool = "map (\<lambda>i. (i, ?cl ! i)) [0..<length c]"
  have all: "\<forall>s<length ?cl. s \<notin> fst ` set ?pool \<longrightarrow> row_final ?cl s (c ! s)"
    by (force simp: length_connection_lists_of)
  from pool_loop_correct [OF graph_ok_connection_lists_of init_pool_ok [OF wf] all]
  show ?thesis
    by (simp add: gradients_of_def Let_def length_connection_lists_of)
qed

lemma row_final_reached:
  assumes "row_final cl s row" and "n < length cl" and "n \<in> ball cl s k"
  shows "0 \<le> row ! n" and "n \<in> sphere cl s (nat (row ! n))"
  using assms unfolding row_final_def by blast+

lemma row_final_unreached:
  assumes "row_final cl s row" and "n < length cl" and "\<forall>k. n \<notin> ball cl s k"
  shows "row ! n = 0"
  using assms unfolding row_final_def by blast

lemma neighbour_gradient:
  assumes fin: "row_final cl s row" and n: "n < length cl" and m: "m < length cl"
    and rn: "n \<in> ball cl s k" and edge: "m \<in> set (cl ! n)"
  shows "row ! m \<le> row ! n + 1"
proof -
  note a = row_final_reached [OF fin n rn]
  from a(2) sphere_subset_ball have "n \<in> ball cl s (nat (row ! n))" by blast
  with edge have mb: "m \<in> ball cl s (Suc (nat (row ! n)))" by auto
  note b = row_final_reached [OF fin m mb]
  from ball_sphere [OF mb] obtain j where j: "j \<le> Suc (nat (row ! n))" "m \<in> sphere cl s j"
    by blast
  from sphere_unique [OF b(2) j(2)] j(1) have "nat (row ! m) \<le> Suc (nat (row ! n))" by simp
  with a(1) b(1) show ?thesis by linarith
qed

text \<open>
  C3. For a connected network the gradient map holds the hop distances: the gradient of
  a source to itself is 0, the gradient of every node is its hop distance from the source,
  and the gradients of two connected nodes differ by at most 1.
\<close>

theorem gradients_are_hop_distances:
  assumes wf: "wf_connections c" and conn: "connected_graph c"
  shows "\<exists>g. gradients_of c = Inr g \<and>
           (\<forall>s<length c. g ! s ! s = 0 \<and>
              (\<forall>n<length c. 0 \<le> g ! s ! n \<and>
                 hop_distance (connection_lists_of c) s n (nat (g ! s ! n)) \<and>
                 (\<forall>m\<in>set (connection_lists_of c ! n). \<bar>g ! s ! n - g ! s ! m\<bar> \<le> 1)))"
proof -
  let ?cl = "connection_lists_of c"
  from gradients_of_final [OF wf] obtain g where g: "gradients_of c = Inr g"
    and fin: "\<forall>s<length c. row_final ?cl s (g ! s)" by blast
  have len: "length ?cl = length c" by (rule length_connection_lists_of)
  have reach: "\<exists>k. n \<in> ball ?cl s k" if "s < length c" "n < length c" for s n
    using conn that unfolding connected_graph_def by blast
  have "g ! s ! s = 0 \<and>
         (\<forall>n<length c. 0 \<le> g ! s ! n \<and> hop_distance ?cl s n (nat (g ! s ! n)) \<and>
            (\<forall>m\<in>set (?cl ! n). \<bar>g ! s ! n - g ! s ! m\<bar> \<le> 1))" if s: "s < length c" for s
  proof -
    from fin s have f: "row_final ?cl s (g ! s)" by simp
    have lev: "0 \<le> g ! s ! n" "n \<in> sphere ?cl s (nat (g ! s ! n))" if "n < length c" for n
    proof -
      from reach [OF s that] obtain k where "n \<in> ball ?cl s k" by blast
      from row_final_reached [OF f _ this] that len
      show "0 \<le> g ! s ! n" "n \<in> sphere ?cl s (nat (g ! s ! n))" by simp_all
    qed
    have "s \<in> sphere ?cl s 0" by (simp add: sphere_def)
    from sphere_unique [OF lev(2) [OF s] this] lev(1) [OF s] have self: "g ! s ! s = 0" by simp
    have nb: "\<bar>g ! s ! n - g ! s ! m\<bar> \<le> 1" if n: "n < length c" and e: "m \<in> set (?cl ! n)" for n m
    proof -
      from e n have m: "m < length c" and one: "c ! n ! m = 1"
        by (simp_all add: set_connection_lists_of)
      from wf_connectionsD(4) [OF wf n m] one have "c ! m ! n = 1" by simp
      with n m have redge: "n \<in> set (?cl ! m)" by (simp add: set_connection_lists_of)
      from reach [OF s n] obtain k where k: "n \<in> ball ?cl s k" by blast
      from reach [OF s m] obtain k' where k': "m \<in> ball ?cl s k'" by blast
      from neighbour_gradient [OF f _ _ k e] n m len
      have "g ! s ! m \<le> g ! s ! n + 1" by simp
      moreover from neighbour_gradient [OF f _ _ k' redge] n m len
      have "g ! s ! n \<le> g ! s ! m + 1" by simp
      ultimately show ?thesis by linarith
    qed
    from self lev sphere_as_hop_distance nb show ?thesis by blast
  qed
  with g show ?thesis by blast
qed

theorem gradients_are_hop_distances_witness:
  "wf_connections line_connections \<and> connected_graph line_connections \<and>
   gradients_of line_connections = Inr [[0, 1, 2], [1, 0, 1], [2, 1, 0]] \<and>
   hop_distance (connection_lists_of line_connections) 0 2 2"
proof -
  have l: "length line_connections = 3"
    by code_simp
  have near: "\<forall>s\<in>{0..<3}. \<forall>n\<in>{0..<3}. n \<in> ball (connection_lists_of line_connections) s 2"
    by code_simp
  have h: "wf_connections line_connections" "connected_graph line_connections"
  proof -
    show "wf_connections line_connections" by code_simp
    show "connected_graph line_connections"
      unfolding connected_graph_def l
    proof (intro allI impI)
      fix s n :: nat
      assume "s < 3" "n < 3"
      with near have "n \<in> ball (connection_lists_of line_connections) s 2"
        by (simp only: Ball_def atLeastLessThan_iff le0 simp_thms)
      then show "\<exists>k. n \<in> ball (connection_lists_of line_connections) s k"
        by (rule exI)
    qed
  qed
  have g: "gradients_of line_connections = Inr [[0, 1, 2], [1, 0, 1], [2, 1, 0]]"
    by code_simp
  from gradients_are_hop_distances [OF h] g l
  have "\<forall>s<3. \<forall>n<3. hop_distance (connection_lists_of line_connections) s n
          (nat ([[0, 1, 2], [1, 0, 1], [2, 1, 0]] ! s ! n))"
    by simp
  from this [rule_format, of 0 2]
  have "hop_distance (connection_lists_of line_connections) 0 2 2"
    by simp
  with h g show ?thesis by simp
qed

text \<open>
  C8 says that a disconnected network makes the program fail before the main loop. The
  script has no such test. For two nodes that are not connected the gradient map is
  computed (all zeros), the tables are built, the first iteration runs, and the run is
  still going after three iterations.
\<close>

lemma apart_ball: "ball (connection_lists_of apart_connections) 0 k = {0}"
proof (induction k)
  case 0
  then show ?case by simp
next
  case (Suc k)
  have "connection_lists_of apart_connections ! 0 = []" by code_simp
  with Suc show ?case by simp
qed

theorem disconnected_graph_is_not_rejected:
  "\<not> connected_graph apart_connections \<and>
   gradients_of apart_connections = Inr [[0, 0], [0, 0]] \<and>
   build_network apart_connections [[1 / 2, 1 / 4], [1 / 4, 1 / 2]] = Inr apart_net \<and>
   round_step apart_net (init_state apart_net) = Inr apart_round1 \<and>
   simulate 3 apart_net (init_state apart_net) = None"
proof -
  have l: "length apart_connections = 2"
    by code_simp
  have alone: "\<not> (\<exists>k. 1 \<in> ball (connection_lists_of apart_connections) 0 k)"
    by (simp add: apart_ball)
  have "\<not> connected_graph apart_connections"
  proof
    assume "connected_graph apart_connections"
    then have "\<forall>s<2. \<forall>n<2. \<exists>k. n \<in> ball (connection_lists_of apart_connections) s k"
      unfolding connected_graph_def l .
    from this [rule_format, of 0 1]
    have "\<exists>k. 1 \<in> ball (connection_lists_of apart_connections) 0 k"
      by simp
    with alone show False by blast
  qed
  moreover have "gradients_of apart_connections = Inr [[0, 0], [0, 0]]"
    by code_simp
  moreover have "build_network apart_connections [[1 / 2, 1 / 4], [1 / 4, 1 / 2]] = Inr apart_net"
    by code_simp
  moreover have "round_step apart_net (init_state apart_net) = Inr apart_round1"
    by code_simp
  moreover have "simulate 3 apart_net (init_state apart_net) = None"
    by code_simp
  ultimately show ?thesis by blast
qed

lemma connection_lists_symmetric:
  assumes wf: "wf_connections c" and n: "n < length c"
    and m: "m \<in> set (connection_lists_of c ! n)"
  shows "m < length c" and "n \<in> set (connection_lists_of c ! m)"
proof -
  from m n have ml: "m < length c" and one: "c ! n ! m = 1"
    by (simp_all add: set_connection_lists_of)
  show "m < length c" by (rule ml)
  from wf_connectionsD(4) [OF wf n ml] one have "c ! m ! n = 1" by simp
  with ml n show "n \<in> set (connection_lists_of c ! m)"
    by (simp add: set_connection_lists_of)
qed

lemma unreached_neighbour:
  assumes wf: "wf_connections c" and n: "n < length c"
    and m: "m \<in> set (connection_lists_of c ! n)"
    and un: "\<forall>k. n \<notin> ball (connection_lists_of c) s k"
  shows "\<forall>k. m \<notin> ball (connection_lists_of c) s k"
proof
  fix k
  show "m \<notin> ball (connection_lists_of c) s k"
  proof
    assume "m \<in> ball (connection_lists_of c) s k"
    with connection_lists_symmetric(2) [OF wf n m]
    have "n \<in> ball (connection_lists_of c) s (Suc k)" by auto
    with un show False by blast
  qed
qed

lemma island_ball: "ball (connection_lists_of island_connections) 0 k \<subseteq> {0, 1}"
proof (induction k)
  case 0
  then show ?case by simp
next
  case (Suc k)
  have "connection_lists_of island_connections ! 0 = [1]"
    "connection_lists_of island_connections ! 1 = [0]" by code_simp+
  with Suc show ?case by auto
qed

text \<open>
  C8 as amended: the gradient map is computed without an error for every network,
  connected or not, and the tables of the main loop are built from it. The gradient of a
  node that can be reached from a source is its hop distance; a node that cannot be
  reached keeps gradient 0 for that source. \<^verbatim>\<open>neighbors_send[s][n]\<close> is the list of the
  neighbours of \<open>n\<close> whose gradient for \<open>s\<close> in this map is that of \<open>n\<close> plus one; it
  is empty for a node that cannot be reached from \<open>s\<close>.
\<close>

theorem gradients_without_connectivity_check:
  assumes wf: "wf_connections c"
  shows "\<exists>g net. gradients_of c = Inr g \<and> build_network c pref = Inr net \<and>
           net_size net = length c \<and> connection_lists net = connection_lists_of c \<and>
           pref_dist net = pref \<and> length (neighbors_send net) = length c \<and>
           (\<forall>s<length c. length (neighbors_send net ! s) = length c \<and>
              (\<forall>n<length c.
                 neighbors_send net ! s ! n =
                   filter (\<lambda>neighbor. g ! s ! neighbor - g ! s ! n = 1)
                     (connection_lists_of c ! n) \<and>
                 ((\<exists>k. n \<in> ball (connection_lists_of c) s k) \<longrightarrow>
                    0 \<le> g ! s ! n \<and>
                    hop_distance (connection_lists_of c) s n (nat (g ! s ! n))) \<and>
                 ((\<forall>k. n \<notin> ball (connection_lists_of c) s k) \<longrightarrow>
                    g ! s ! n = 0 \<and> neighbors_send net ! s ! n = [])))"
proof -
  let ?cl = "connection_lists_of c"
  from gradients_of_final [OF wf] obtain g where g: "gradients_of c = Inr g"
    and fin: "\<forall>s<length c. row_final ?cl s (g ! s)" by blast
  define net where "net = \<lparr>net_size = length c, connection_lists = ?cl,
               neighbors_send = neighbors_send_of ?cl g, pref_dist = pref\<rparr>"
  have len: "length ?cl = length c" by (rule length_connection_lists_of)
  from g have b: "build_network c pref = Inr net"
    by (simp add: build_network_def net_def)
  have n1: "net_size net = length c" "connection_lists net = ?cl" "pref_dist net = pref"
    "length (neighbors_send net) = length c"
    by (simp_all add: net_def neighbors_send_of_def len)
  have rows: "length (neighbors_send net ! s) = length c" if "s < length c" for s
    using that by (simp add: net_def neighbors_send_of_def len)
  have ns: "neighbors_send net ! s ! n =
      filter (\<lambda>neighbor. g ! s ! neighbor - g ! s ! n = 1) (?cl ! n)"
    if "s < length c" "n < length c" for s n
    using that by (simp add: net_def neighbors_send_of_def gradients_rel_def len)
  have reached: "0 \<le> g ! s ! n \<and> hop_distance ?cl s n (nat (g ! s ! n))"
    if s: "s < length c" and n: "n < length c" and r: "\<exists>k. n \<in> ball ?cl s k" for s n
  proof -
    from r obtain k where k: "n \<in> ball ?cl s k" by blast
    from fin s have f: "row_final ?cl s (g ! s)" by blast
    from row_final_reached [OF f _ k] n len
    have "0 \<le> g ! s ! n" "n \<in> sphere ?cl s (nat (g ! s ! n))" by simp_all
    with sphere_as_hop_distance show ?thesis by blast
  qed
  have unreached: "g ! s ! n = 0 \<and> neighbors_send net ! s ! n = []"
    if s: "s < length c" and n: "n < length c" and u: "\<forall>k. n \<notin> ball ?cl s k" for s n
  proof -
    from fin s have f: "row_final ?cl s (g ! s)" by blast
    from row_final_unreached [OF f _ u] n len have z: "g ! s ! n = 0" by simp
    have "g ! s ! m - g ! s ! n \<noteq> 1" if m: "m \<in> set (?cl ! n)" for m
    proof -
      from connection_lists_symmetric(1) [OF wf n m] have ml: "m < length c" .
      from row_final_unreached [OF f _ unreached_neighbour [OF wf n m u]] ml len
      have "g ! s ! m = 0" by simp
      with z show ?thesis by simp
    qed
    then have "filter (\<lambda>neighbor. g ! s ! neighbor - g ! s ! n = 1) (?cl ! n) = []"
      by (simp add: filter_empty_conv)
    with ns [OF s n] z show ?thesis by simp
  qed
  from g b n1 rows ns reached unreached show ?thesis by blast
qed

theorem gradients_without_connectivity_check_witness:
  "wf_connections island_connections \<and>
   (\<forall>k. 2 \<notin> ball (connection_lists_of island_connections) 0 k) \<and>
   gradients_of island_connections = Inr [[0, 1, 0], [1, 0, 0], [0, 0, 0]] \<and>
   (\<exists>net. build_network island_connections
        [[1 / 2, 1 / 4, 1 / 8], [1 / 4, 1 / 2, 1 / 8], [1 / 8, 1 / 4, 1 / 2]] = Inr net \<and>
      neighbors_send net ! 0 ! 0 = [1] \<and> neighbors_send net ! 0 ! 2 = [])"
proof -
  let ?p = "[[1 / 2, 1 / 4, 1 / 8], [1 / 4, 1 / 2, 1 / 8], [1 / 8, 1 / 4, 1 / 2 :: real]]"
  have h: "wf_connections island_connections"
    by code_simp
  have l: "length island_connections = 3"
    by code_simp
  have gv: "gradients_of island_connections = Inr [[0, 1, 0], [1, 0, 0], [0, 0, 0]]"
    by code_simp
  have cl0: "connection_lists_of island_connections ! 0 = [1]"
    by code_simp
  have u: "\<forall>k. 2 \<notin> ball (connection_lists_of island_connections) 0 k"
    using island_ball by fastforce
  from gradients_without_connectivity_check [OF h, of ?p] l
  obtain g net where g: "gradients_of island_connections = Inr g"
    and b: "build_network island_connections ?p = Inr net"
    and a: "\<forall>s<3. length (neighbors_send net ! s) = 3 \<and>
              (\<forall>n<3.
                 neighbors_send net ! s ! n =
                   filter (\<lambda>neighbor. g ! s ! neighbor - g ! s ! n = 1)
                     (connection_lists_of island_connections ! n) \<and>
                 ((\<exists>k. n \<in> ball (connection_lists_of island_connections) s k) \<longrightarrow>
                    0 \<le> g ! s ! n \<and>
                    hop_distance (connection_lists_of island_connections) s n (nat (g ! s ! n))) \<and>
                 ((\<forall>k. n \<notin> ball (connection_lists_of island_connections) s k) \<longrightarrow>
                    g ! s ! n = 0 \<and> neighbors_send net ! s ! n = []))"
    by auto
  from g gv have ge: "g = [[0, 1, 0], [1, 0, 0], [0, 0, 0]]" by simp
  have z: "(0::nat) < 3" "(2::nat) < 3" by simp_all
  note a0 = conjunct2 [OF a [rule_format, OF z(1)]]
  note a00 = a0 [rule_format, OF z(1)]
  note a02 = a0 [rule_format, OF z(2)]
  from conjunct2 [OF conjunct2 [OF a02]] u
  have "neighbors_send net ! 0 ! 2 = []"
    by blast
  moreover from conjunct1 [OF a00]
  have "neighbors_send net ! 0 ! 0 = [1]"
    by (simp add: cl0 ge)
  ultimately show ?thesis using h u gv b by blast
qed

subsection \<open>Where messages are sent\<close>

lemma gradient_self_and_neighbour:
  assumes wf: "wf_connections c" and g: "gradients_of c = Inr g" and s: "s < length c"
  shows "g ! s ! s = 0" and "t \<in> set (connection_lists_of c ! s) \<Longrightarrow> g ! s ! t = 1"
proof -
  let ?cl = "connection_lists_of c"
  from gradients_of_final [OF wf] g s have fin: "row_final ?cl s (g ! s)" by auto
  have len: "length ?cl = length c" by (rule length_connection_lists_of)
  have s0: "s \<in> ball ?cl s 0" by simp
  from row_final_reached [OF fin _ s0] s len
  have "0 \<le> g ! s ! s" "s \<in> sphere ?cl s (nat (g ! s ! s))" by simp_all
  moreover have "s \<in> sphere ?cl s 0" by (simp add: sphere_def)
  ultimately show "g ! s ! s = 0" using sphere_unique [of s ?cl s "nat (g ! s ! s)" 0] by simp
  assume t: "t \<in> set (?cl ! s)"
  with s have tl: "t < length c" and one: "c ! s ! t = 1"
    by (simp_all add: set_connection_lists_of)
  from wf_connectionsD(2) [OF wf s] one have "t \<noteq> s" by auto
  from t have t1: "t \<in> ball ?cl s (Suc 0)" by simp
  with \<open>t \<noteq> s\<close> have "t \<in> sphere ?cl s (Suc 0)" by (simp add: sphere_def)
  moreover from row_final_reached [OF fin _ t1] tl len
  have "0 \<le> g ! s ! t" "t \<in> sphere ?cl s (nat (g ! s ! t))" by simp_all
  ultimately show "g ! s ! t = 1" using sphere_unique [of t ?cl s "nat (g ! s ! t)" "Suc 0"] by simp
qed

lemma neighbors_send_of_set:
  assumes "s < length cl" and "j < length cl"
  shows "set (neighbors_send_of cl g ! s ! j) = {n \<in> set (cl ! j). g ! s ! n = g ! s ! j + 1}"
  using assms by (auto simp: neighbors_send_of_def gradients_rel_def)

lemma transmissions_member:
  assumes "x \<in> set (transmissions net st)"
  shows "fst x < net_size net \<and> fst (snd (snd x)) < net_size net \<and>
         fst (snd x) \<in> set (neighbors_send net ! fst (snd (snd x)) ! fst x)"
  using assms by (auto simp: transmissions_def relay_message_def split: if_splits)

lemma initial_transmissions_member:
  assumes "x \<in> set (initial_transmissions net)"
  shows "fst x < net_size net \<and> fst (snd (snd x)) = fst x \<and>
         fst (snd x) \<in> set (connection_lists net ! fst x)"
  using assms by (auto simp: initial_transmissions_def initial_message_def)

text \<open>
  C4. \<^verbatim>\<open>neighbors_send[s][j]\<close> holds exactly the neighbours of \<open>j\<close> whose gradient for
  source \<open>s\<close> is the gradient of \<open>j\<close> plus one. Every append to an inbox, in the
  broadcast before the main loop and in the transmit step of an iteration, goes from the
  transmitting node to a neighbour whose gradient for the source of the message is one
  greater than that of the transmitter; the inboxes after the transmit step hold what they
  held before, followed by the messages of these appends.
\<close>

theorem messages_go_one_gradient_up:
  assumes wf: "wf_connections c" and g: "gradients_of c = Inr g"
    and net: "build_network c pref = Inr net"
  shows "(\<forall>s<net_size net. \<forall>j<net_size net.
            set (neighbors_send net ! s ! j) =
              {n \<in> set (connection_lists net ! j). g ! s ! n = g ! s ! j + 1}) \<and>
         (\<forall>x\<in>set (initial_transmissions net) \<union> set (transmissions net st).
            fst (snd x) \<in> set (connection_lists net ! fst x) \<and>
            g ! fst (snd (snd x)) ! fst (snd x) = g ! fst (snd (snd x)) ! fst x + 1) \<and>
         (\<forall>t<length (message_rx st).
            message_rx (transmit net st) ! t =
              message_rx st ! t @
                map (\<lambda>x. snd (snd x)) (filter (\<lambda>x. fst (snd x) = t) (transmissions net st)))"
proof -
  let ?cl = "connection_lists_of c"
  from net g have n: "net_size net = length c" "connection_lists net = ?cl"
    "neighbors_send net = neighbors_send_of ?cl g"
    by (auto simp: build_network_def)
  have len: "length ?cl = length c" by (rule length_connection_lists_of)
  have a: "set (neighbors_send net ! s ! j) =
      {n \<in> set (connection_lists net ! j). g ! s ! n = g ! s ! j + 1}"
    if "s < net_size net" "j < net_size net" for s j
    using neighbors_send_of_set [of s ?cl j g] that n len by simp
  have b: "fst (snd x) \<in> set (connection_lists net ! fst x) \<and>
      g ! fst (snd (snd x)) ! fst (snd x) = g ! fst (snd (snd x)) ! fst x + 1"
    if "x \<in> set (transmissions net st)" for x
    using transmissions_member [OF that] a by auto
  have c: "fst (snd x) \<in> set (connection_lists net ! fst x) \<and>
      g ! fst (snd (snd x)) ! fst (snd x) = g ! fst (snd (snd x)) ! fst x + 1"
    if "x \<in> set (initial_transmissions net)" for x
  proof -
    from initial_transmissions_member [OF that]
    have x: "fst x < length c" "fst (snd (snd x)) = fst x" "fst (snd x) \<in> set (?cl ! fst x)"
      by (simp_all add: n)
    from gradient_self_and_neighbour [OF wf g x(1)] x show ?thesis by (simp add: n)
  qed
  have d: "message_rx (transmit net st) ! t =
      message_rx st ! t @
        map (\<lambda>x. snd (snd x)) (filter (\<lambda>x. fst (snd x) = t) (transmissions net st))"
    if "t < length (message_rx st)" for t
    using that by (simp add: transmit_def deliver_nth)
  from a b c d show ?thesis by blast
qed

theorem messages_go_one_gradient_up_witness:
  "wf_connections line_connections \<and>
   gradients_of line_connections = Inr [[0, 1, 2], [1, 0, 1], [2, 1, 0]] \<and>
   build_network line_connections (pref_dist line_net) = Inr line_net \<and>
   (1, 2, initial_message line_net 1) \<in> set (initial_transmissions line_net) \<and>
   set (neighbors_send line_net ! 0 ! 1) =
     {n \<in> set (connection_lists line_net ! 1).
        [[0, 1, 2], [1, 0, 1], [2, 1, 0]] ! 0 ! n = [[0, 1, 2], [1, 0, 1], [2, 1, 0]] ! 0 ! 1 + (1::int)} \<and>
   [[0, 1, 2], [1, 0, 1], [2, 1, 0]] ! fst (initial_message line_net 1) ! 2 =
     [[0, 1, 2], [1, 0, 1], [2, 1, 0]] ! fst (initial_message line_net 1) ! 1 + (1::int)"
proof -
  have h: "wf_connections line_connections"
    "gradients_of line_connections = Inr [[0, 1, 2], [1, 0, 1], [2, 1, 0]]"
    "build_network line_connections (pref_dist line_net) = Inr line_net"
    by code_simp+
  have m: "(1, 2, initial_message line_net 1) \<in> set (initial_transmissions line_net)"
    by code_simp
  have n: "(0::nat) < net_size line_net" "(1::nat) < net_size line_net"
    by code_simp+
  note t = messages_go_one_gradient_up [OF h, of "init_state line_net"]
  from t n have "set (neighbors_send line_net ! 0 ! 1) =
     {n \<in> set (connection_lists line_net ! 1).
        [[0, 1, 2], [1, 0, 1], [2, 1, 0]] ! 0 ! n = [[0, 1, 2], [1, 0, 1], [2, 1, 0]] ! 0 ! 1 + (1::int)}"
    by blast
  moreover have "[[0, 1, 2], [1, 0, 1], [2, 1, 0]] ! fst (initial_message line_net 1) ! 2 =
     [[0, 1, 2], [1, 0, 1], [2, 1, 0]] ! fst (initial_message line_net 1) ! 1 + (1::int)"
  proof -
    from t have "\<forall>x\<in>set (initial_transmissions line_net) \<union>
         set (transmissions line_net (init_state line_net)).
         fst (snd x) \<in> set (connection_lists line_net ! fst x) \<and>
         [[0, 1, 2], [1, 0, 1], [2, 1, 0]] ! fst (snd (snd x)) ! fst (snd x) =
         [[0, 1, 2], [1, 0, 1], [2, 1, 0]] ! fst (snd (snd x)) ! fst x + (1::int)"
      by (rule conjunct1 [OF conjunct2])
    moreover from m have "(1, 2, initial_message line_net 1) \<in>
        set (initial_transmissions line_net) \<union> set (transmissions line_net (init_state line_net))"
      by simp
    ultimately have "fst (snd (1::nat, 2::nat, initial_message line_net 1)) \<in>
          set (connection_lists line_net ! fst (1::nat, 2::nat, initial_message line_net 1)) \<and>
        [[0, 1, 2], [1, 0, 1], [2, 1, 0]] !
          fst (snd (snd (1::nat, 2::nat, initial_message line_net 1))) !
          fst (snd (1::nat, 2::nat, initial_message line_net 1)) =
        [[0, 1, 2], [1, 0, 1], [2, 1, 0]] !
          fst (snd (snd (1::nat, 2::nat, initial_message line_net 1))) !
          fst (1::nat, 2::nat, initial_message line_net 1) + (1::int)"
      by (rule bspec)
    then show ?thesis by simp
  qed
  ultimately show ?thesis using h m by blast
qed

subsection \<open>The two tables of a node agree\<close>

lemma buckets_okD:
  assumes "buckets_ok n f b"
  shows "length b = n"
    and "q < n \<Longrightarrow> distinct (b ! q)"
    and "q < n \<Longrightarrow> set (b ! q) = {j. j < n \<and> f j = int q}"
  using assms unfolding buckets_ok_def by blast+

lemma buckets_okI:
  assumes "length b = n"
    and "\<And>q. q < n \<Longrightarrow> distinct (b ! q)"
    and "\<And>q. q < n \<Longrightarrow> set (b ! q) = {j. j < n \<and> f j = int q}"
  shows "buckets_ok n f b"
  using assms unfolding buckets_ok_def by blast

lemma buckets_ok_append:
  assumes ok: "buckets_ok n f b" and s: "s < n" and r: "r < n" and none: "f s < 0"
  shows "buckets_ok n (f(s := int r)) (b[r := b ! r @ [s]])"
proof (rule buckets_okI)
  note len = buckets_okD(1) [OF ok]
  show "length (b[r := b ! r @ [s]]) = n" using len by simp
  fix q assume q: "q < n"
  note d = buckets_okD(2) [OF ok q] and m = buckets_okD(3) [OF ok q]
  from none have "f s \<noteq> int q" by simp
  with m have notin: "s \<notin> set (b ! q)" by simp
  show "distinct (b[r := b ! r @ [s]] ! q)"
  proof (cases "q = r")
    case True
    with d notin r len show ?thesis by simp
  next
    case False
    with d show ?thesis by simp
  qed
  show "set (b[r := b ! r @ [s]] ! q) = {j. j < n \<and> (f(s := int r)) j = int q}"
  proof (cases "q = r")
    case True
    then have "set (b[r := b ! r @ [s]] ! q) = insert s (set (b ! q))"
      using r len by simp
    also have "\<dots> = {j. j < n \<and> (f(s := int r)) j = int q}"
      unfolding m using True s by auto
    finally show ?thesis .
  next
    case False
    then have "set (b[r := b ! r @ [s]] ! q) = set (b ! q)" by simp
    also have "\<dots> = {j. j < n \<and> (f(s := int r)) j = int q}"
      unfolding m using False \<open>f s \<noteq> int q\<close> by auto
    finally show ?thesis .
  qed
qed

lemma buckets_ok_remove:
  assumes ok: "buckets_ok n f b" and s: "s < n" and old: "0 \<le> f s" "f s < int n"
  shows "buckets_ok n (f(s := - 1)) (b[nat (f s) := remove1 s (b ! nat (f s))])"
proof (rule buckets_okI)
  let ?o = "nat (f s)"
  note len = buckets_okD(1) [OF ok]
  from old have o: "?o < n" "int ?o = f s" by simp_all
  show "length (b[?o := remove1 s (b ! ?o)]) = n" using len by simp
  fix q assume q: "q < n"
  note d = buckets_okD(2) [OF ok q] and m = buckets_okD(3) [OF ok q]
  show "distinct (b[?o := remove1 s (b ! ?o)] ! q)"
  proof (cases "q = ?o")
    case True
    with d o len show ?thesis by simp
  next
    case False
    with d show ?thesis by simp
  qed
  show "set (b[?o := remove1 s (b ! ?o)] ! q) = {j. j < n \<and> (f(s := - 1)) j = int q}"
  proof (cases "q = ?o")
    case True
    then have "set (b[?o := remove1 s (b ! ?o)] ! q) = set (b ! q) - {s}"
      using o len d by simp
    also have "\<dots> = {j. j < n \<and> (f(s := - 1)) j = int q}"
      unfolding m by auto
    finally show ?thesis .
  next
    case False
    with o have ne: "f s \<noteq> int q" by auto
    from False have "set (b[?o := remove1 s (b ! ?o)] ! q) = set (b ! q)" by simp
    also have "\<dots> = {j. j < n \<and> (f(s := - 1)) j = int q}"
      unfolding m using ne by auto
    finally show ?thesis .
  qed
qed

lemma buckets_ok_move:
  assumes ok: "buckets_ok n f b" and s: "s < n" and r: "r < n"
    and old: "f s = - 1 \<or> (0 \<le> f s \<and> f s < int n)"
  shows "buckets_ok n (f(s := int r))
           ((if 0 \<le> f s then b[nat (f s) := remove1 s (b ! nat (f s))] else b)
              [r := (if 0 \<le> f s then b[nat (f s) := remove1 s (b ! nat (f s))] else b) ! r @ [s]])"
proof (cases "0 \<le> f s")
  case True
  with old have o: "0 \<le> f s" "f s < int n" by simp_all
  from buckets_ok_remove [OF ok s o]
  have "buckets_ok n (f(s := - 1)) (b[nat (f s) := remove1 s (b ! nat (f s))])" .
  from buckets_ok_append [OF this s r] True show ?thesis by simp
next
  case False
  with buckets_ok_append [OF ok s r] show ?thesis by simp
qed

lemma node_okD:
  assumes "node_ok net st i"
  shows "length (local_role_assignment st ! i) = net_size net"
    and "length (transmit_flag st ! i) = net_size net"
    and "buckets_ok (net_size net) (role_of st i) (local_node_assignment st ! i)"
    and "j < net_size net \<Longrightarrow> role_of st i j = - 1 \<or>
         (0 \<le> role_of st i j \<and> role_of st i j < int (net_size net))"
    and "0 \<le> role_of st i i"
    and "j < net_size net \<Longrightarrow> transmit_flag st ! i ! j \<Longrightarrow> 0 \<le> role_of st i j"
  using assms unfolding node_ok_def by blast+

lemma node_okI:
  assumes "length (local_role_assignment st ! i) = net_size net"
    and "length (transmit_flag st ! i) = net_size net"
    and "buckets_ok (net_size net) (role_of st i) (local_node_assignment st ! i)"
    and "\<And>j. j < net_size net \<Longrightarrow> role_of st i j = - 1 \<or>
         (0 \<le> role_of st i j \<and> role_of st i j < int (net_size net))"
    and "0 \<le> role_of st i i"
    and "\<And>j. j < net_size net \<Longrightarrow> transmit_flag st ! i ! j \<Longrightarrow> 0 \<le> role_of st i j"
  shows "node_ok net st i"
  using assms unfolding node_ok_def by blast

lemma buckets_ok_cong:
  assumes "\<And>j. j < n \<Longrightarrow> f j = g j" and "buckets_ok n f b"
  shows "buckets_ok n g b"
proof (rule buckets_okI)
  show "length b = n" by (rule buckets_okD(1) [OF assms(2)])
  fix q assume q: "q < n"
  show "distinct (b ! q)" by (rule buckets_okD(2) [OF assms(2) q])
  have "set (b ! q) = {j. j < n \<and> f j = int q}" by (rule buckets_okD(3) [OF assms(2) q])
  also have "\<dots> = {j. j < n \<and> g j = int q}" using assms(1) by auto
  finally show "set (b ! q) = {j. j < n \<and> g j = int q}" .
qed

lemma node_ok_cong:
  assumes "node_ok net st i"
    and "local_role_assignment st' ! i = local_role_assignment st ! i"
    and "local_node_assignment st' ! i = local_node_assignment st ! i"
    and "transmit_flag st' ! i = transmit_flag st ! i"
  shows "node_ok net st' i"
proof -
  from assms(2) have "role_of st' i = role_of st i" by (simp add: role_of_def fun_eq_iff)
  with assms show ?thesis by (simp add: node_ok_def)
qed

lemma rx_message_cases:
  assumes run: "rx_message net i st (s, role, p, ts) = Inr st'"
    and role: "0 \<le> role" "role < int (net_size net)"
  obtains (stale) "st' = st"
  | (applied) "s \<noteq> i" "s < net_size net"
      "st' = st\<lparr>
         local_node_assignment := (local_node_assignment st)
           [i := (if 0 \<le> role_of st i s
                  then (local_node_assignment st ! i)
                    [nat (role_of st i s) := remove1 s (local_node_assignment st ! i ! nat (role_of st i s))]
                  else local_node_assignment st ! i)
              [nat role :=
                 (if 0 \<le> role_of st i s
                  then (local_node_assignment st ! i)
                    [nat (role_of st i s) := remove1 s (local_node_assignment st ! i ! nat (role_of st i s))]
                  else local_node_assignment st ! i) ! nat role @ [s]]],
         local_role_assignment := (local_role_assignment st)
           [i := (local_role_assignment st ! i)[s := (role, p, ts)]],
         transmit_flag := (transmit_flag st)[i := (transmit_flag st ! i)[s := True]],
         change_flag := (if role = role_of st i i \<and> pref_dist net ! i ! nat role \<le> p
           then (change_flag st)[i := True] else change_flag st)\<rparr>"
proof (cases "claim_time (local_role_assignment st ! i ! s) < ts")
  case False
  with run have "st' = st" by (auto simp: rx_message_def split: if_splits)
  then show ?thesis by (rule stale)
next
  case True
  from run have a: "s \<noteq> i" "s < net_size net"
    by (auto simp: rx_message_def split: if_splits)
  from role have ir: "in_range (net_size net) role" "py_index (net_size net) role = nat role"
    by (simp_all add: in_range_def py_index_def)
  from run True a ir show ?thesis
    by (intro applied) (auto simp: rx_message_def Let_def role_of_def split: if_splits)
qed

lemma rx_message_ok:
  assumes dims: "dims_ok net st" and i: "i < net_size net" and ok: "node_ok net st i"
    and m: "message_ok net m" and run: "rx_message net i st m = Inr st'"
  shows "dims_ok net st'" and "node_ok net st' i"
    and "k \<noteq> i \<Longrightarrow> local_role_assignment st' ! k = local_role_assignment st ! k"
    and "k \<noteq> i \<Longrightarrow> local_node_assignment st' ! k = local_node_assignment st ! k"
    and "k \<noteq> i \<Longrightarrow> transmit_flag st' ! k = transmit_flag st ! k"
    and "message_rx st' = message_rx st" and "iter_count st' = iter_count st"
proof -
  obtain s role p ts where mm: "m = (s, role, p, ts)" by (cases m)
  from m have role: "0 \<le> role" "role < int (net_size net)" by (simp_all add: message_ok_def mm)
  let ?n = "net_size net"
  let ?f = "role_of st i"
  from dims i have li: "i < length (local_role_assignment st)"
    "i < length (local_node_assignment st)" "i < length (transmit_flag st)"
    by (simp_all add: dims_ok_def)
  note o = node_okD [OF ok]
  have all: "dims_ok net st' \<and> node_ok net st' i \<and>
      (k \<noteq> i \<longrightarrow> local_role_assignment st' ! k = local_role_assignment st ! k \<and>
         local_node_assignment st' ! k = local_node_assignment st ! k \<and>
         transmit_flag st' ! k = transmit_flag st ! k) \<and>
      message_rx st' = message_rx st \<and> iter_count st' = iter_count st"
    using run [unfolded mm] role
  proof (cases rule: rx_message_cases)
    case stale
    with dims ok show ?thesis by simp
  next
    case applied
    let ?b = "local_node_assignment st ! i"
    let ?B = "(if 0 \<le> ?f s then ?b[nat (?f s) := remove1 s (?b ! nat (?f s))] else ?b)
              [nat role := (if 0 \<le> ?f s then ?b[nat (?f s) := remove1 s (?b ! nat (?f s))] else ?b)
                 ! nat role @ [s]]"
    note s = applied(1,2)
    from applied(3) li have rows: "local_role_assignment st' ! i = (local_role_assignment st ! i)[s := (role, p, ts)]"
      "local_node_assignment st' ! i = ?B"
      "transmit_flag st' ! i = (transmit_flag st ! i)[s := True]"
      by simp_all
    from rows(1) s o(1) have f': "role_of st' i j = (?f(s := role)) j" if "j < ?n" for j
      using that by (simp add: role_of_def claim_role_def nth_list_update)
    from role have r: "nat role < ?n" "int (nat role) = role" by simp_all
    from buckets_ok_move [OF o(3) s(2) r(1) o(4) [OF s(2)]] r(2)
    have "buckets_ok ?n (?f(s := role)) ?B" by simp
    then have b': "buckets_ok ?n (role_of st' i) (local_node_assignment st' ! i)"
      unfolding rows(2) by (rule buckets_ok_cong [rotated]) (simp add: f')
    have "node_ok net st' i"
    proof (rule node_okI)
      show "length (local_role_assignment st' ! i) = ?n" using rows(1) o(1) by simp
      show "length (transmit_flag st' ! i) = ?n" using rows(3) o(2) by simp
      show "buckets_ok ?n (role_of st' i) (local_node_assignment st' ! i)" by (rule b')
      show "0 \<le> role_of st' i i" using f' [OF i] s(1) o(5) by simp
    next
      fix j assume j: "j < ?n"
      show "role_of st' i j = - 1 \<or> (0 \<le> role_of st' i j \<and> role_of st' i j < int ?n)"
        using f' [OF j] o(4) [OF j] role by (cases "j = s") simp_all
      assume "transmit_flag st' ! i ! j"
      then show "0 \<le> role_of st' i j"
        using f' [OF j] o(6) [OF j] role rows(3) by (cases "j = s") simp_all
    qed
    moreover from applied(3) dims have "dims_ok net st'" by (simp add: dims_ok_def)
    moreover from applied(3) have "k \<noteq> i \<longrightarrow> local_role_assignment st' ! k = local_role_assignment st ! k \<and>
         local_node_assignment st' ! k = local_node_assignment st ! k \<and>
         transmit_flag st' ! k = transmit_flag st ! k" by simp
    moreover from applied(3) have "message_rx st' = message_rx st \<and> iter_count st' = iter_count st"
      by simp
    ultimately show ?thesis by blast
  qed
  then show "dims_ok net st'" and "node_ok net st' i"
    and "k \<noteq> i \<Longrightarrow> local_role_assignment st' ! k = local_role_assignment st ! k"
    and "k \<noteq> i \<Longrightarrow> local_node_assignment st' ! k = local_node_assignment st ! k"
    and "k \<noteq> i \<Longrightarrow> transmit_flag st' ! k = transmit_flag st ! k"
    and "message_rx st' = message_rx st" and "iter_count st' = iter_count st"
    by blast+
qed

lemma rows_okD:
  assumes "rows_ok net st"
  shows "dims_ok net st" and "i < net_size net \<Longrightarrow> node_ok net st i"
  using assms unfolding rows_ok_def by blast+

lemma rx_message_rows:
  assumes ok: "rows_ok net st" and i: "i < net_size net" and m: "message_ok net m"
    and run: "rx_message net i st m = Inr st'"
  shows "rows_ok net st' \<and> message_rx st' = message_rx st \<and> iter_count st' = iter_count st"
proof -
  note r = rx_message_ok [OF rows_okD(1) [OF ok] i rows_okD(2) [OF ok i] m run]
  have "node_ok net st' k" if k: "k < net_size net" for k
  proof (cases "k = i")
    case True
    with r(2) show ?thesis by simp
  next
    case False
    from node_ok_cong [OF rows_okD(2) [OF ok k] r(3) [OF False] r(4) [OF False] r(5) [OF False]]
    show ?thesis .
  qed
  with r(1,6,7) show ?thesis by (simp add: rows_ok_def)
qed

lemma rx_node_rows:
  assumes ok: "rows_ok net st" and i: "i < net_size net"
    and ms: "\<forall>m\<in>set (buf ! i). message_ok net m"
    and run: "rx_node net buf st i = Inr st'"
  shows "rows_ok net st' \<and> message_rx st' = message_rx st \<and> iter_count st' = iter_count st"
proof (rule foldM_invariant [OF run [unfolded rx_node_def],
      where P = "\<lambda>s. rows_ok net s \<and> message_rx s = message_rx st \<and> iter_count s = iter_count st"])
  show "rows_ok net st \<and> message_rx st = message_rx st \<and> iter_count st = iter_count st"
    using ok by simp
next
  fix a m b
  assume "m \<in> set (buf ! i)" and step: "rx_message net i a m = Inr b"
    and a: "rows_ok net a \<and> message_rx a = message_rx st \<and> iter_count a = iter_count st"
  with ms have "message_ok net m" by blast
  from rx_message_rows [OF _ i this step] a
  show "rows_ok net b \<and> message_rx b = message_rx st \<and> iter_count b = iter_count st" by simp
qed

lemma rx_all_rows:
  assumes ok: "rows_ok net st"
    and ms: "\<forall>i<net_size net. \<forall>m\<in>set (buf ! i). message_ok net m"
    and run: "rx_all net buf st = Inr st'"
  shows "rows_ok net st' \<and> message_rx st' = message_rx st \<and> iter_count st' = iter_count st"
proof (rule foldM_invariant [OF run [unfolded rx_all_def],
      where P = "\<lambda>s. rows_ok net s \<and> message_rx s = message_rx st \<and> iter_count s = iter_count st"])
  show "rows_ok net st \<and> message_rx st = message_rx st \<and> iter_count st = iter_count st"
    using ok by simp
next
  fix a i b
  assume i: "i \<in> set [0..<net_size net]" and step: "rx_node net buf a i = Inr b"
    and a: "rows_ok net a \<and> message_rx a = message_rx st \<and> iter_count a = iter_count st"
  from i have il: "i < net_size net" by simp
  with ms have "\<forall>m\<in>set (buf ! i). message_ok net m" by blast
  from rx_node_rows [OF _ il this step] a
  show "rows_ok net b \<and> message_rx b = message_rx st \<and> iter_count b = iter_count st" by simp
qed

lemma role_change_ok:
  assumes wf: "wf_network net" and dims: "dims_ok net st" and i: "i < net_size net"
    and ok: "node_ok net st i" and run: "role_change net i st = Inr st'"
  shows "dims_ok net st'" and "node_ok net st' i"
    and "k \<noteq> i \<Longrightarrow> local_role_assignment st' ! k = local_role_assignment st ! k"
    and "k \<noteq> i \<Longrightarrow> local_node_assignment st' ! k = local_node_assignment st ! k"
    and "k \<noteq> i \<Longrightarrow> transmit_flag st' ! k = transmit_flag st ! k"
    and "message_rx st' = message_rx st"
proof -
  let ?n = "net_size net"
  let ?f = "role_of st i"
  let ?b = "local_node_assignment st ! i"
  let ?ro = "nat (?f i)"
  let ?T = "eliminate_taken ?b ((pref_dist net ! i)[?ro := - 1]) [0..<?n]"
  let ?a = "argmax ?T"
  let ?B = "(?b[?ro := remove1 i (?b ! ?ro)])[?a := (?b[?ro := remove1 i (?b ! ?ro)]) ! ?a @ [i]]"
  note o = node_okD [OF ok]
  from dims i have li: "i < length (local_role_assignment st)"
    "i < length (local_node_assignment st)" "i < length (transmit_flag st)"
    by (simp_all add: dims_ok_def)
  from o(4) [OF i] o(5) have own: "0 \<le> ?f i" "?f i < int ?n" by auto
  then have ro: "?ro < ?n" "int ?ro = ?f i" by simp_all
  from buckets_okD(3) [OF o(3) ro(1)] i ro(2) have mem: "i \<in> set (?b ! ?ro)" by simp
  have st': "st' = st\<lparr>
               change_flag := (change_flag st)[i := False],
               local_node_assignment := (local_node_assignment st)[i := ?B],
               local_role_assignment := (local_role_assignment st)
                 [i := (local_role_assignment st ! i)
                    [i := (int ?a, pref_dist net ! i ! ?a, iter_count st)]],
               transmit_flag := (transmit_flag st)[i := (transmit_flag st ! i)[i := True]]\<rparr>"
    using role_change_Inr [of st i net] own mem run
    by (simp add: role_of_def Let_def split: if_splits)
  have lenT: "length ?T = ?n"
    using wf_networkD(5) [OF wf i] by (simp add: eliminate_taken_length)
  with i have "?T \<noteq> []" by auto
  from argmax_less [OF this] lenT have a: "?a < ?n" by simp
  from st' li have rows: "local_role_assignment st' ! i =
      (local_role_assignment st ! i)[i := (int ?a, pref_dist net ! i ! ?a, iter_count st)]"
      "local_node_assignment st' ! i = ?B"
      "transmit_flag st' ! i = (transmit_flag st ! i)[i := True]"
    by simp_all
  from rows(1) i o(1) have f': "role_of st' i j = (?f(i := int ?a)) j" if "j < ?n" for j
    using that by (simp add: role_of_def claim_role_def nth_list_update)
  from buckets_ok_move [OF o(3) i a o(4) [OF i]] own(1)
  have "buckets_ok ?n (?f(i := int ?a)) ?B" by simp
  then have b': "buckets_ok ?n (role_of st' i) (local_node_assignment st' ! i)"
    unfolding rows(2) by (rule buckets_ok_cong [rotated]) (simp add: f')
  show "node_ok net st' i"
  proof (rule node_okI)
    show "length (local_role_assignment st' ! i) = ?n" using rows(1) o(1) by simp
    show "length (transmit_flag st' ! i) = ?n" using rows(3) o(2) by simp
    show "buckets_ok ?n (role_of st' i) (local_node_assignment st' ! i)" by (rule b')
    show "0 \<le> role_of st' i i" using f' [OF i] by simp
  next
    fix j assume j: "j < ?n"
    show "role_of st' i j = - 1 \<or> (0 \<le> role_of st' i j \<and> role_of st' i j < int ?n)"
      using f' [OF j] o(4) [OF j] a by (cases "j = i") simp_all
    assume "transmit_flag st' ! i ! j"
    then show "0 \<le> role_of st' i j"
      using f' [OF j] o(6) [OF j] rows(3) by (cases "j = i") simp_all
  qed
  show "dims_ok net st'" using st' dims by (simp add: dims_ok_def)
  show "message_rx st' = message_rx st" using st' by simp
  show "k \<noteq> i \<Longrightarrow> local_role_assignment st' ! k = local_role_assignment st ! k"
    using st' by simp
  show "k \<noteq> i \<Longrightarrow> local_node_assignment st' ! k = local_node_assignment st ! k"
    using st' by simp
  show "k \<noteq> i \<Longrightarrow> transmit_flag st' ! k = transmit_flag st ! k"
    using st' by simp
qed

lemma change_all_rows:
  assumes wf: "wf_network net" and ok: "rows_ok net st" and run: "change_all net st = Inr st'"
  shows "rows_ok net st' \<and> message_rx st' = message_rx st"
proof (rule foldM_invariant [OF run [unfolded change_all_def],
      where P = "\<lambda>s. rows_ok net s \<and> message_rx s = message_rx st"])
  show "rows_ok net st \<and> message_rx st = message_rx st" using ok by simp
next
  fix a i b
  assume i: "i \<in> set [0..<net_size net]" and step: "change_node net a i = Inr b"
    and a: "rows_ok net a \<and> message_rx a = message_rx st"
  from i have il: "i < net_size net" by simp
  show "rows_ok net b \<and> message_rx b = message_rx st"
  proof (cases "change_flag a ! i")
    case False
    with step a show ?thesis by (simp add: change_node_def)
  next
    case True
    with step have rc: "role_change net i a = Inr b" by (simp add: change_node_def)
    from a have ra: "rows_ok net a" by simp
    note r = role_change_ok [OF wf rows_okD(1) [OF ra] il rows_okD(2) [OF ra il] rc]
    have "node_ok net b k" if k: "k < net_size net" for k
    proof (cases "k = i")
      case True
      with r(2) show ?thesis by simp
    next
      case False
      from node_ok_cong [OF rows_okD(2) [OF ra k] r(3) [OF False] r(4) [OF False] r(5) [OF False]]
      show ?thesis .
    qed
    with r(1,6) a show ?thesis by (simp add: rows_ok_def)
  qed
qed

lemma tables_okD:
  assumes "tables_ok net st"
  shows "rows_ok net st" and "length (message_rx st) = net_size net"
    and "i < net_size net \<Longrightarrow> m \<in> set (message_rx st ! i) \<Longrightarrow> message_ok net m"
  using assms unfolding tables_ok_def rows_ok_def by blast+

lemma tables_okI:
  assumes "rows_ok net st" and "length (message_rx st) = net_size net"
    and "\<And>i m. i < net_size net \<Longrightarrow> m \<in> set (message_rx st ! i) \<Longrightarrow> message_ok net m"
  shows "tables_ok net st"
  using assms unfolding tables_ok_def rows_ok_def by blast

lemma rows_ok_cong:
  assumes "rows_ok net st"
    and "local_role_assignment st' = local_role_assignment st"
    and "local_node_assignment st' = local_node_assignment st"
    and "transmit_flag st' = transmit_flag st"
    and "length (change_flag st') = length (change_flag st)"
  shows "rows_ok net st'"
proof -
  have "node_ok net st' i" if "i < net_size net" for i
    using node_ok_cong [OF rows_okD(2) [OF assms(1) that]] assms(2-4) by simp
  moreover have "dims_ok net st'"
    using rows_okD(1) [OF assms(1)] assms(2-5) by (simp add: dims_ok_def)
  ultimately show ?thesis by (simp add: rows_ok_def)
qed

lemma tables_ok_consistent:
  assumes "tables_ok net st"
  shows "consistent net st"
  unfolding consistent_def
proof (intro ballI)
  fix i j r
  assume "i \<in> {0..<net_size net}" "j \<in> {0..<net_size net}" "r \<in> {0..<net_size net}"
  then have i: "i < net_size net" and j: "j < net_size net" and r: "r < net_size net" by simp_all
  note o = node_okD [OF rows_okD(2) [OF tables_okD(1) [OF assms] i]]
  from buckets_okD(3) [OF o(3) r] j
  show "(j \<in> set (local_node_assignment st ! i ! r)) =
        (claim_role (local_role_assignment st ! i ! j) = int r)"
    by (simp add: role_of_def)
qed

lemma transmissions_message:
  assumes "x \<in> set (transmissions net st)"
  shows "\<exists>tr source. tr < net_size net \<and> source < net_size net \<and>
           transmit_flag st ! tr ! source \<and> snd (snd x) = relay_message st tr source"
  using assms by (fastforce simp: transmissions_def split: if_splits)

lemma transmit_ok:
  assumes rows: "rows_ok net st" and len: "length (message_rx st) = net_size net"
    and inbox: "\<And>i m. i < net_size net \<Longrightarrow> m \<in> set (message_rx st ! i) \<Longrightarrow> message_ok net m"
  shows "tables_ok net (transmit net st)"
proof (rule tables_okI)
  let ?n = "net_size net"
  note d = rows_okD(1) [OF rows]
  show "length (message_rx (transmit net st)) = ?n"
    using len by (simp add: transmit_def length_deliver)
  show "rows_ok net (transmit net st)"
    unfolding rows_ok_def
  proof (intro conjI allI impI)
    show "dims_ok net (transmit net st)" using d by (simp add: dims_ok_def transmit_def)
    fix i assume i: "i < ?n"
    note o = node_okD [OF rows_okD(2) [OF rows i]]
    from d i have it: "i < length (transmit_flag st)" by (simp add: dims_ok_def)
    have f: "role_of (transmit net st) i = role_of st i"
      by (simp add: role_of_def transmit_def fun_eq_iff)
    show "node_ok net (transmit net st) i"
    proof (rule node_okI)
      show "length (local_role_assignment (transmit net st) ! i) = ?n"
        using o(1) by (simp add: transmit_def)
      show "length (transmit_flag (transmit net st) ! i) = ?n"
        using o(2) it by (simp add: transmit_def)
      show "buckets_ok ?n (role_of (transmit net st) i) (local_node_assignment (transmit net st) ! i)"
        using o(3) f by (simp add: transmit_def)
      show "0 \<le> role_of (transmit net st) i i" using o(5) f by simp
    next
      fix j assume j: "j < ?n"
      show "role_of (transmit net st) i j = - 1 \<or>
          (0 \<le> role_of (transmit net st) i j \<and> role_of (transmit net st) i j < int ?n)"
        using o(4) [OF j] f by simp
      assume "transmit_flag (transmit net st) ! i ! j"
      with it o(2) j show "0 \<le> role_of (transmit net st) i j"
        by (simp add: transmit_def)
    qed
  qed
next
  fix t m
  assume t: "t < net_size net" and m: "m \<in> set (message_rx (transmit net st) ! t)"
  from m t len have "m \<in> set (message_rx st ! t) \<or>
      (\<exists>x\<in>set (transmissions net st). m = snd (snd x))"
    by (auto simp: transmit_def deliver_nth)
  then show "message_ok net m"
  proof
    assume "m \<in> set (message_rx st ! t)"
    with inbox t show ?thesis by blast
  next
    assume "\<exists>x\<in>set (transmissions net st). m = snd (snd x)"
    then obtain x where x: "x \<in> set (transmissions net st)" "m = snd (snd x)" by blast
    from transmissions_message [OF x(1)] x(2) obtain tr source where
      tr: "tr < net_size net" and so: "source < net_size net"
      and flag: "transmit_flag st ! tr ! source" and mm: "m = relay_message st tr source"
      by auto
    note o = node_okD [OF rows_okD(2) [OF rows tr]]
    from o(6) [OF so flag] o(4) [OF so] so show ?thesis
      by (simp add: message_ok_def mm relay_message_def role_of_def claim_role_def)
  qed
qed

lemma round_step_ok:
  assumes wf: "wf_network net" and ok: "tables_ok net st" and run: "round_step net st = Inr st'"
  shows "tables_ok net st'"
proof -
  let ?st1 = "st\<lparr>iter_count := iter_count st + 1, message_rx := replicate (net_size net) []\<rparr>"
  from run obtain st2 st3 where
    rx: "rx_all net (message_rx st) ?st1 = Inr st2"
    and ch: "change_all net st2 = Inr st3"
    and st': "st' = check_converged net (transmit net st3)"
    by (rule round_step_parts)
  have r1: "rows_ok net ?st1"
    by (rule rows_ok_cong [OF tables_okD(1) [OF ok]]) simp_all
  have ms: "\<forall>i<net_size net. \<forall>m\<in>set (message_rx st ! i). message_ok net m"
    using tables_okD(3) [OF ok] by blast
  from rx_all_rows [OF r1 ms rx]
  have r2: "rows_ok net st2" and m2: "message_rx st2 = replicate (net_size net) []" by simp_all
  from change_all_rows [OF wf r2 ch] m2
  have r3: "rows_ok net st3" and m3: "message_rx st3 = replicate (net_size net) []" by simp_all
  have t: "tables_ok net (transmit net st3)"
  proof (rule transmit_ok [OF r3])
    show "length (message_rx st3) = net_size net" by (simp add: m3)
    fix i m assume "i < net_size net" "m \<in> set (message_rx st3 ! i)"
    then show "message_ok net m" by (simp add: m3)
  qed
  show ?thesis
  proof (rule tables_okI)
    show "rows_ok net st'"
      unfolding st' by (rule rows_ok_cong [OF tables_okD(1) [OF t]]) (simp_all add: check_converged_def)
    show "length (message_rx st') = net_size net"
      using tables_okD(2) [OF t] by (simp add: st' check_converged_def)
    fix i m assume "i < net_size net" "m \<in> set (message_rx st' ! i)"
    then show "message_ok net m"
      using tables_okD(3) [OF t, of i m] by (simp add: st' check_converged_def)
  qed
qed

lemma init_state_ok:
  assumes wf: "wf_network net"
  shows "tables_ok net (init_state net)"
proof (rule tables_okI)
  let ?n = "net_size net"
  let ?st = "init_state net"
  note w = wf_networkD [OF wf]
  have ir: "initial_roles net ! i = argmax (pref_dist net ! i)" "initial_roles net ! i < ?n"
    if i: "i < ?n" for i
  proof -
    from w(4) i show a: "initial_roles net ! i = argmax (pref_dist net ! i)"
      by (simp add: initial_roles_def)
    from w(5) [OF i] i have "pref_dist net ! i \<noteq> []" by auto
    from argmax_less [OF this] w(5) [OF i] a show "initial_roles net ! i < ?n" by simp
  qed
  show "length (message_rx ?st) = ?n"
    by (simp add: init_state_def length_deliver)
  show "rows_ok net ?st"
    unfolding rows_ok_def
  proof (intro conjI allI impI)
    show "dims_ok net ?st" by (simp add: dims_ok_def init_state_def)
    fix i assume i: "i < ?n"
    have f: "role_of ?st i j = (if j = i then int (initial_roles net ! i) else - 1)"
      if "j < ?n" for j
      using that i by (simp add: role_of_def init_state_def claim_role_def)
    show "node_ok net ?st i"
    proof (rule node_okI)
      show "length (local_role_assignment ?st ! i) = ?n" using i by (simp add: init_state_def)
      show "length (transmit_flag ?st ! i) = ?n" using i by (simp add: init_state_def)
      show "0 \<le> role_of ?st i i" using f [OF i] by simp
      show "buckets_ok ?n (role_of ?st i) (local_node_assignment ?st ! i)"
      proof (rule buckets_okI)
        show "length (local_node_assignment ?st ! i) = ?n" using i by (simp add: init_state_def)
        fix q assume q: "q < ?n"
        from i q have b: "local_node_assignment ?st ! i ! q =
            (if q = initial_roles net ! i then [i] else [])"
          by (simp add: init_state_def)
        show "distinct (local_node_assignment ?st ! i ! q)" by (simp add: b)
        show "set (local_node_assignment ?st ! i ! q) = {j. j < ?n \<and> role_of ?st i j = int q}"
          using f i by (auto simp: b split: if_splits)
      qed
    next
      fix j assume j: "j < ?n"
      show "role_of ?st i j = - 1 \<or> (0 \<le> role_of ?st i j \<and> role_of ?st i j < int ?n)"
        using f [OF j] ir(2) [OF i] by simp
      assume "transmit_flag ?st ! i ! j"
      with i j show "0 \<le> role_of ?st i j" by (simp add: init_state_def)
    qed
  qed
next
  fix t m
  assume t: "t < net_size net" and m: "m \<in> set (message_rx (init_state net) ! t)"
  from m t have "\<exists>x\<in>set (initial_transmissions net). m = snd (snd x)"
    by (auto simp: init_state_def deliver_nth)
  then obtain source where "source < net_size net" "m = initial_message net source"
    by (auto simp: initial_transmissions_def)
  moreover from wf_networkD(4) [OF wf] this(1)
  have a: "initial_roles net ! source = argmax (pref_dist net ! source)"
    by (simp add: initial_roles_def)
  moreover from wf_networkD(5) [OF wf \<open>source < net_size net\<close>] \<open>source < net_size net\<close>
  have "pref_dist net ! source \<noteq> []" by auto
  from argmax_less [OF this] wf_networkD(5) [OF wf \<open>source < net_size net\<close>]
  have "argmax (pref_dist net ! source) < net_size net" by simp
  ultimately show "message_ok net m"
    by (simp add: message_ok_def initial_message_def)
qed

lemma rounds_ok:
  assumes wf: "wf_network net"
  shows "tables_ok net st \<Longrightarrow> rounds k net st = Inr st' \<Longrightarrow> tables_ok net st'"
proof (induction k arbitrary: st)
  case 0
  then show ?case by simp
next
  case (Suc k)
  from Suc.prems(2) obtain st1 where s1: "round_step net st = Inr st1"
    and rest: "rounds k net st1 = Inr st'" by (auto split: sum.splits)
  from Suc.IH [OF round_step_ok [OF wf Suc.prems(1) s1] rest] show ?case .
qed

text \<open>
  C9. In the table of every node \<open>i\<close>, node \<open>j\<close> is listed for role \<open>r\<close> exactly when
  the entry of \<open>i\<close> for \<open>j\<close> holds role \<open>r\<close> (an entry that still holds -1 is listed
  nowhere). This holds at the start and after every number of iterations of the main loop;
  an iteration (receiving, changing roles, transmitting) keeps the invariant \<open>tables_ok\<close>,
  which contains it.
\<close>

theorem registry_consistent_with_claims:
  assumes wf: "wf_network net"
  shows "consistent net (init_state net) \<and>
         (\<forall>k st. rounds k net (init_state net) = Inr st \<longrightarrow> consistent net st) \<and>
         (\<forall>st st'. tables_ok net st \<and> round_step net st = Inr st' \<longrightarrow>
            tables_ok net st' \<and> consistent net st')"
proof (intro conjI allI impI)
  show "consistent net (init_state net)"
    by (rule tables_ok_consistent [OF init_state_ok [OF wf]])
next
  fix k st assume "rounds k net (init_state net) = Inr st"
  from rounds_ok [OF wf init_state_ok [OF wf] this] show "consistent net st"
    by (rule tables_ok_consistent)
next
  fix st st' assume a: "tables_ok net st \<and> round_step net st = Inr st'"
  then have "tables_ok net st'" using round_step_ok [OF wf] by blast
  then show "tables_ok net st'" and "consistent net st'"
    by (simp_all add: tables_ok_consistent)
qed

theorem registry_consistent_with_claims_witness:
  "wf_network line_net \<and>
   rounds 2 line_net (init_state line_net) = Inr line_round2 \<and>
   consistent line_net line_round2"
proof -
  have h: "wf_network line_net"
    by code_simp
  have r: "rounds 2 line_net (init_state line_net) = Inr line_round2"
    by code_simp
  from registry_consistent_with_claims [OF h] r have "consistent line_net line_round2"
    by blast
  with h r show ?thesis by simp
qed

subsection \<open>Marking a node to yield\<close>

lemma newer_alt:
  "newer st i m = (claim_time (local_role_assignment st ! i ! fst m) < snd (snd (snd m)))"
  by (cases m) (simp add: newer_def)

lemma conflicting_alt:
  "conflicting net st i m =
     (claim_role (snd m) = claim_role (local_role_assignment st ! i ! i) \<and>
      pref_dist net ! i ! py_index (net_size net) (claim_role (local_role_assignment st ! i ! i))
        \<le> claim_prob (snd m))"
  by (cases m) (auto simp: conflicting_def claim_role_def claim_prob_def)

lemma rx_message_applied:
  assumes "rx_message net i st m = Inr st'" and "newer st i m"
  shows "fst m \<noteq> i" and "fst m < net_size net"
    and "local_role_assignment st' =
           (local_role_assignment st)[i := (local_role_assignment st ! i)[fst m := snd m]]"
    and "transmit_flag st' = (transmit_flag st)[i := (transmit_flag st ! i)[fst m := True]]"
    and "iter_count st' = iter_count st"
  using assms
  by (auto simp: rx_message_def newer_def Let_def split: prod.splits if_splits)

lemma rx_message_not_applied:
  assumes "rx_message net i st m = Inr st'" and "\<not> newer st i m"
  shows "st' = st"
  using assms
  by (auto simp: rx_message_def newer_def Let_def split: prod.splits if_splits)

lemma rx_fold_entry_kept:
  assumes "foldM (rx_message net i) st ms = Inr st'"
    and "\<forall>m\<in>set ms. fst m = s \<longrightarrow>
           snd (snd (snd m)) \<le> claim_time (local_role_assignment st ! i ! s)"
  shows "local_role_assignment st' ! i ! s = local_role_assignment st ! i ! s"
  using assms
proof (induction ms arbitrary: st)
  case Nil
  then show ?case by simp
next
  case (Cons m ms)
  from Cons.prems(1) obtain s1 where s1: "rx_message net i st m = Inr s1"
    and rest: "foldM (rx_message net i) s1 ms = Inr st'"
    by (auto split: sum.splits)
  have e: "local_role_assignment s1 ! i ! s = local_role_assignment st ! i ! s"
  proof (cases "newer st i m")
    case True
    with Cons.prems(2) have "fst m \<noteq> s" by (auto simp: newer_alt)
    with rx_message_applied(3) [OF s1 True] show ?thesis
      by (simp add: nth_nth_update_other)
  next
    case False
    with rx_message_not_applied [OF s1] show ?thesis by simp
  qed
  from Cons.prems(2) e
  have "\<forall>m\<in>set ms. fst m = s \<longrightarrow>
           snd (snd (snd m)) \<le> claim_time (local_role_assignment s1 ! i ! s)" by simp
  from Cons.IH [OF rest this] e show ?case by simp
qed

lemma iff_chain:
  "(A \<longleftrightarrow> B1 \<or> R) \<Longrightarrow> (B1 \<longleftrightarrow> B0 \<or> M) \<Longrightarrow> (L \<longleftrightarrow> M \<or> R) \<Longrightarrow> (A \<longleftrightarrow> B0 \<or> L)"
  by blast

lemma rx_fold_mark:
  assumes run: "foldM (rx_message net i) st ms = Inr st'"
    and rows: "rows_ok net st" and i: "i < net_size net"
    and ms: "\<forall>m\<in>set ms. message_ok net m"
    and uni: "\<forall>m\<in>set ms. snd (snd (snd m)) = T (fst m)"
  shows "change_flag st' ! i \<longleftrightarrow>
           (change_flag st ! i \<or>
            (\<exists>j<net_size net.
               local_role_assignment st' ! i ! j \<noteq> local_role_assignment st ! i ! j \<and>
               claim_role (local_role_assignment st' ! i ! j) =
                 claim_role (local_role_assignment st ! i ! i) \<and>
               pref_dist net ! i ! py_index (net_size net)
                   (claim_role (local_role_assignment st ! i ! i))
                 \<le> claim_prob (local_role_assignment st' ! i ! j)))"
  using run rows ms uni
proof (induction ms arbitrary: st)
  case Nil
  then show ?case by simp
next
  case (Cons m ms)
  let ?n = "net_size net"
  let ?f = "rx_message net i"
  let ?own = "local_role_assignment st ! i ! i"
  let ?C = "\<lambda>e. claim_role e = claim_role ?own \<and>
              pref_dist net ! i ! py_index ?n (claim_role ?own) \<le> claim_prob e"
  from Cons.prems(1) obtain s1 where s1: "?f st m = Inr s1" and rest: "foldM ?f s1 ms = Inr st'"
    by (auto split: sum.splits)
  from Cons.prems(3) have mok: "message_ok net m" and msok: "\<forall>m\<in>set ms. message_ok net m"
    by simp_all
  from rx_message_rows [OF Cons.prems(2) i mok s1] have r1: "rows_ok net s1" by simp
  from Cons.prems(4) have tm: "snd (snd (snd m)) = T (fst m)"
    and uni': "\<forall>m\<in>set ms. snd (snd (snd m)) = T (fst m)"
    by simp_all
  have own: "local_role_assignment s1 ! i ! i = ?own"
    by (rule rx_message_own_entry [OF s1])
  from rows_okD(1) [OF Cons.prems(2)] i have il: "i < length (change_flag st)"
    "i < length (local_role_assignment st)" by (simp_all add: dims_ok_def)
  from node_okD(1) [OF rows_okD(2) [OF Cons.prems(2) i]]
  have rl: "length (local_role_assignment st ! i) = ?n" .
  from Cons.IH [OF rest r1 msok uni']
  have ih: "change_flag st' ! i \<longleftrightarrow>
      (change_flag s1 ! i \<or>
       (\<exists>j<?n. local_role_assignment st' ! i ! j \<noteq> local_role_assignment s1 ! i ! j \<and>
          ?C (local_role_assignment st' ! i ! j)))"
    by (simp add: own)
  show ?case
  proof (cases "newer st i m")
    case False
    from rx_message_not_applied [OF s1 False] ih show ?thesis by simp
  next
    case True
    note a = rx_message_applied [OF s1 True]
    let ?s = "fst m"
    from a(3) il rl a(2) have e1: "local_role_assignment s1 ! i ! ?s = snd m"
      by simp
    from a(3) have other: "local_role_assignment s1 ! i ! j = local_role_assignment st ! i ! j"
      if "j \<noteq> ?s" for j
      using that by (simp add: nth_nth_update_other)
    from True e1 have t1: "claim_time (local_role_assignment s1 ! i ! ?s) = snd (snd (snd m))"
      by (simp add: claim_time_def)
    have "\<forall>m'\<in>set ms. fst m' = ?s \<longrightarrow>
        snd (snd (snd m')) \<le> claim_time (local_role_assignment s1 ! i ! ?s)"
    proof (intro ballI impI)
      fix m' assume "m' \<in> set ms" and "fst m' = ?s"
      with uni' have "snd (snd (snd m')) = T ?s" by auto
      with tm t1 show "snd (snd (snd m')) \<le> claim_time (local_role_assignment s1 ! i ! ?s)"
        by simp
    qed
    from rx_fold_entry_kept [OF rest this] e1
    have e': "local_role_assignment st' ! i ! ?s = snd m" by simp
    from True have ne: "snd m \<noteq> local_role_assignment st ! i ! ?s"
      by (auto simp: newer_alt claim_time_def)
    from rx_message_change_flag(1) [OF s1 il(1)] True
    have cf: "change_flag s1 ! i = (change_flag st ! i \<or> conflicting net st i m)" by simp
    have cm: "conflicting net st i m = ?C (snd m)"
      by (simp add: conflicting_alt)
    have "(\<exists>j<?n. local_role_assignment st' ! i ! j \<noteq> local_role_assignment st ! i ! j \<and>
          ?C (local_role_assignment st' ! i ! j)) \<longleftrightarrow>
        (?C (snd m) \<or>
         (\<exists>j<?n. local_role_assignment st' ! i ! j \<noteq> local_role_assignment s1 ! i ! j \<and>
          ?C (local_role_assignment st' ! i ! j)))" (is "?L \<longleftrightarrow> ?M \<or> ?R")
    proof
      assume ?L
      then obtain j where j: "j < ?n"
        "local_role_assignment st' ! i ! j \<noteq> local_role_assignment st ! i ! j"
        "?C (local_role_assignment st' ! i ! j)" by blast
      show "?M \<or> ?R"
      proof (cases "j = ?s")
        case True
        with j(3) e' show ?thesis by simp
      next
        case False
        with j other [OF False] show ?thesis by auto
      qed
    next
      assume "?M \<or> ?R"
      then show ?L
      proof
        assume ?M
        with e' ne a(2) show ?L by auto
      next
        assume ?R
        then obtain j where j: "j < ?n"
          "local_role_assignment st' ! i ! j \<noteq> local_role_assignment s1 ! i ! j"
          "?C (local_role_assignment st' ! i ! j)" by blast
        from j(2) e' e1 have "j \<noteq> ?s" by auto
        from other [OF this] j show ?L by auto
      qed
    qed
    then show ?thesis by (rule iff_chain [OF ih cf [unfolded cm]])
  qed
qed

lemma rx_prefix_rows:
  assumes run: "foldM (rx_node net buf) st js = Inr st'"
    and rows: "rows_ok net st"
    and js: "\<forall>j\<in>set js. j < net_size net"
    and ms: "\<forall>k<net_size net. \<forall>m\<in>set (buf ! k). message_ok net m"
  shows "rows_ok net st'"
proof (rule foldM_invariant [OF run, where P = "rows_ok net"])
  show "rows_ok net st" by (rule rows)
next
  fix a j b
  assume j: "j \<in> set js" and step: "rx_node net buf a j = Inr b" and a: "rows_ok net a"
  from j js have jl: "j < net_size net" by blast
  with ms have "\<forall>m\<in>set (buf ! j). message_ok net m" by blast
  from rx_node_rows [OF a jl this step] show "rows_ok net b" by simp
qed

lemma rx_all_mark:
  assumes run: "rx_all net buf st = Inr st'"
    and rows: "rows_ok net st" and i: "i < net_size net"
    and ms: "\<forall>k<net_size net. \<forall>m\<in>set (buf ! k). message_ok net m"
    and uni: "\<forall>m\<in>set (buf ! i). snd (snd (snd m)) = T (fst m)"
    and clear: "\<not> change_flag st ! i"
  shows "local_role_assignment st' ! i ! i = local_role_assignment st ! i ! i"
    and "change_flag st' ! i \<longleftrightarrow>
           (\<exists>j<net_size net.
               local_role_assignment st' ! i ! j \<noteq> local_role_assignment st ! i ! j \<and>
               claim_role (local_role_assignment st' ! i ! j) =
                 claim_role (local_role_assignment st ! i ! i) \<and>
               pref_dist net ! i ! py_index (net_size net)
                   (claim_role (local_role_assignment st ! i ! i))
                 \<le> claim_prob (local_role_assignment st' ! i ! j))"
proof -
  let ?f = "rx_node net buf"
  from run have "foldM ?f st ([0..<i] @ i # [Suc i..<net_size net]) = Inr st'"
    using upt_split [OF i] by (simp add: rx_all_def)
  then obtain st0 sti where before: "foldM ?f st [0..<i] = Inr st0"
    and here: "?f st0 i = Inr sti" and after: "foldM ?f sti [Suc i..<net_size net] = Inr st'"
    by (auto simp: foldM_append split: sum.splits)
  have r0: "rows_ok net st0"
  proof (rule rx_prefix_rows [OF before rows _ ms])
    show "\<forall>j\<in>set [0..<i]. j < net_size net" using i by simp
  qed
  note b = rx_nodes_other [OF before, of i, simplified]
  note a = rx_nodes_other [OF after, of i, simplified]
  from here have fold: "foldM (rx_message net i) st0 (buf ! i) = Inr sti"
    by (simp add: rx_node_def)
  from ms i have mi: "\<forall>m\<in>set (buf ! i). message_ok net m" by blast
  have own: "local_role_assignment sti ! i ! i = local_role_assignment st0 ! i ! i"
    by (rule foldM_invariant [OF fold,
          where P = "\<lambda>s. local_role_assignment s ! i ! i = local_role_assignment st0 ! i ! i"])
       (simp_all add: rx_message_own_entry)
  from own a(3) b(3) show "local_role_assignment st' ! i ! i = local_role_assignment st ! i ! i"
    by simp
  from rx_fold_mark [OF fold r0 i mi uni] a(1,3) b(1,3) clear
  show "change_flag st' ! i \<longleftrightarrow>
           (\<exists>j<net_size net.
               local_role_assignment st' ! i ! j \<noteq> local_role_assignment st ! i ! j \<and>
               claim_role (local_role_assignment st' ! i ! j) =
                 claim_role (local_role_assignment st ! i ! i) \<and>
               pref_dist net ! i ! py_index (net_size net)
                   (claim_role (local_role_assignment st ! i ! i))
                 \<le> claim_prob (local_role_assignment st' ! i ! j))"
    by simp
qed

lemma relay_timesD:
  "relay_times net g st \<Longrightarrow> j < net_size net \<Longrightarrow> s < net_size net \<Longrightarrow>
     transmit_flag st ! j ! s \<Longrightarrow>
     claim_time (local_role_assignment st ! j ! s) = iter_count st - g ! s ! j"
  unfolding relay_times_def by blast

lemma relay_timesI:
  "(\<And>j s. j < net_size net \<Longrightarrow> s < net_size net \<Longrightarrow> transmit_flag st ! j ! s \<Longrightarrow>
     claim_time (local_role_assignment st ! j ! s) = iter_count st - g ! s ! j) \<Longrightarrow>
   relay_times net g st"
  unfolding relay_times_def by blast

lemma nested_update_nth:
  assumes "i < length xs" and "s < length (xs ! i)"
  shows "xs[i := (xs ! i)[s := v]] ! j ! k = (if j = i \<and> k = s then v else xs ! j ! k)"
  using assms by (auto simp: nth_list_update)

lemma rx_message_relay:
  assumes rel: "relay_times net g st" and rows: "rows_ok net st" and i: "i < net_size net"
    and run: "rx_message net i st m = Inr st'"
    and tm: "snd (snd (snd m)) = iter_count st - g ! fst m ! i"
  shows "relay_times net g st'"
proof (cases "newer st i m")
  case False
  from rx_message_not_applied [OF run False] rel show ?thesis by simp
next
  case True
  note a = rx_message_applied [OF run True]
  let ?n = "net_size net"
  from rows_okD(1) [OF rows] i have il: "i < length (local_role_assignment st)"
    "i < length (transmit_flag st)" by (simp_all add: dims_ok_def)
  note o = node_okD [OF rows_okD(2) [OF rows i]]
  from o(1,2) a(2) have sl: "fst m < length (local_role_assignment st ! i)"
    "fst m < length (transmit_flag st ! i)" by simp_all
  show ?thesis
  proof (rule relay_timesI)
    fix j s
    assume j: "j < ?n" and s: "s < ?n" and f: "transmit_flag st' ! j ! s"
    have e: "local_role_assignment st' ! j ! s =
        (if j = i \<and> s = fst m then snd m else local_role_assignment st ! j ! s)"
      unfolding a(3) by (rule nested_update_nth [OF il(1) sl(1)])
    have t: "transmit_flag st' ! j ! s =
        (if j = i \<and> s = fst m then True else transmit_flag st ! j ! s)"
      unfolding a(4) by (rule nested_update_nth [OF il(2) sl(2)])
    show "claim_time (local_role_assignment st' ! j ! s) = iter_count st' - g ! s ! j"
    proof (cases "j = i \<and> s = fst m")
      case True
      with e tm a(5) show ?thesis by (simp add: claim_time_def)
    next
      case False
      have e2: "local_role_assignment st' ! j ! s = local_role_assignment st ! j ! s"
        by (simp only: e if_not_P [OF False])
      have "transmit_flag st' ! j ! s = transmit_flag st ! j ! s"
        by (simp only: t if_not_P [OF False])
      with f have "transmit_flag st ! j ! s" by simp
      from relay_timesD [OF rel j s this] e2 a(5) show ?thesis by simp
    qed
  qed
qed

lemma rx_node_relay:
  assumes rel: "relay_times net g st" and rows: "rows_ok net st" and i: "i < net_size net"
    and ms: "\<forall>m\<in>set (buf ! i). message_ok net m \<and>
               snd (snd (snd m)) = iter_count st - g ! fst m ! i"
    and run: "rx_node net buf st i = Inr st'"
  shows "rows_ok net st' \<and> iter_count st' = iter_count st \<and> relay_times net g st'"
proof (rule foldM_invariant [OF run [unfolded rx_node_def],
      where P = "\<lambda>s. rows_ok net s \<and> iter_count s = iter_count st \<and> relay_times net g s"])
  show "rows_ok net st \<and> iter_count st = iter_count st \<and> relay_times net g st"
    using rel rows by simp
next
  fix a m b
  assume m: "m \<in> set (buf ! i)" and step: "rx_message net i a m = Inr b"
    and a: "rows_ok net a \<and> iter_count a = iter_count st \<and> relay_times net g a"
  from m ms have mok: "message_ok net m"
    and tm: "snd (snd (snd m)) = iter_count st - g ! fst m ! i" by blast+
  from a have ra: "rows_ok net a" and ia: "iter_count a = iter_count st"
    and rel_a: "relay_times net g a" by simp_all
  from tm ia have tma: "snd (snd (snd m)) = iter_count a - g ! fst m ! i" by simp
  from rx_message_rows [OF ra i mok step] rx_message_relay [OF rel_a ra i step tma] ia
  show "rows_ok net b \<and> iter_count b = iter_count st \<and> relay_times net g b" by simp
qed

lemma rx_all_relay:
  assumes rel: "relay_times net g st" and rows: "rows_ok net st"
    and ms: "\<forall>i<net_size net. \<forall>m\<in>set (buf ! i). message_ok net m \<and>
               snd (snd (snd m)) = iter_count st - g ! fst m ! i"
    and run: "rx_all net buf st = Inr st'"
  shows "rows_ok net st' \<and> iter_count st' = iter_count st \<and> relay_times net g st'"
proof (rule foldM_invariant [OF run [unfolded rx_all_def],
      where P = "\<lambda>s. rows_ok net s \<and> iter_count s = iter_count st \<and> relay_times net g s"])
  show "rows_ok net st \<and> iter_count st = iter_count st \<and> relay_times net g st"
    using rel rows by simp
next
  fix a i b
  assume i: "i \<in> set [0..<net_size net]" and step: "rx_node net buf a i = Inr b"
    and a: "rows_ok net a \<and> iter_count a = iter_count st \<and> relay_times net g a"
  from i have il: "i < net_size net" by simp
  from a have ra: "rows_ok net a" and ia: "iter_count a = iter_count st"
    and rel_a: "relay_times net g a" by simp_all
  from ms il ia have "\<forall>m\<in>set (buf ! i). message_ok net m \<and>
               snd (snd (snd m)) = iter_count a - g ! fst m ! i" by simp
  from rx_node_relay [OF rel_a ra il this step] ia
  show "rows_ok net b \<and> iter_count b = iter_count st \<and> relay_times net g b" by simp
qed

lemma role_change_entry:
  "role_change net i st = Inr st' \<Longrightarrow>
     \<exists>r p. local_role_assignment st' =
       (local_role_assignment st)[i := (local_role_assignment st ! i)[i := (r, p, iter_count st)]]"
  apply (clarsimp simp: role_change_def Let_def split: if_splits)
  apply (intro exI)
  apply (rule refl)
  done

lemma role_change_shape:
  assumes "role_change net i st = Inr st'"
  shows "\<exists>r p. local_role_assignment st' =
           (local_role_assignment st)[i := (local_role_assignment st ! i)[i := (r, p, iter_count st)]]"
    and "transmit_flag st' = (transmit_flag st)[i := (transmit_flag st ! i)[i := True]]"
    and "iter_count st' = iter_count st"
    and "change_flag st' = (change_flag st)[i := False]"
proof -
  show "\<exists>r p. local_role_assignment st' =
           (local_role_assignment st)[i := (local_role_assignment st ! i)[i := (r, p, iter_count st)]]"
    by (rule role_change_entry [OF assms])
  show "transmit_flag st' = (transmit_flag st)[i := (transmit_flag st ! i)[i := True]]"
    and "iter_count st' = iter_count st"
    and "change_flag st' = (change_flag st)[i := False]"
    using assms by (auto simp: role_change_def Let_def split: if_splits)
qed

lemma role_change_relay:
  assumes rel: "relay_times net g st" and rows: "rows_ok net st" and i: "i < net_size net"
    and run: "role_change net i st = Inr st'" and zero: "g ! i ! i = 0"
  shows "relay_times net g st'"
proof -
  let ?n = "net_size net"
  note a = role_change_shape [OF run]
  from a(1) obtain r p where rp: "local_role_assignment st' =
      (local_role_assignment st)[i := (local_role_assignment st ! i)[i := (r, p, iter_count st)]]"
    by blast
  define e where "e = (r, p, iter_count st)"
  from rp have e: "local_role_assignment st' =
      (local_role_assignment st)[i := (local_role_assignment st ! i)[i := e]]"
    by (simp add: e_def)
  have te: "claim_time e = iter_count st" by (simp add: e_def claim_time_def)
  from rows_okD(1) [OF rows] i have il: "i < length (local_role_assignment st)"
    "i < length (transmit_flag st)" by (simp_all add: dims_ok_def)
  note o = node_okD [OF rows_okD(2) [OF rows i]]
  from o(1,2) i have sl: "i < length (local_role_assignment st ! i)"
    "i < length (transmit_flag st ! i)" by simp_all
  show ?thesis
  proof (rule relay_timesI)
    fix j s
    assume j: "j < ?n" and s: "s < ?n" and f: "transmit_flag st' ! j ! s"
    have en: "local_role_assignment st' ! j ! s =
        (if j = i \<and> s = i then e else local_role_assignment st ! j ! s)"
      unfolding e by (rule nested_update_nth [OF il(1) sl(1)])
    have t: "transmit_flag st' ! j ! s =
        (if j = i \<and> s = i then True else transmit_flag st ! j ! s)"
      unfolding a(2) by (rule nested_update_nth [OF il(2) sl(2)])
    show "claim_time (local_role_assignment st' ! j ! s) = iter_count st' - g ! s ! j"
    proof (cases "j = i \<and> s = i")
      case True
      with en te a(3) zero show ?thesis by simp
    next
      case False
      have e2: "local_role_assignment st' ! j ! s = local_role_assignment st ! j ! s"
        by (simp only: en if_not_P [OF False])
      have "transmit_flag st' ! j ! s = transmit_flag st ! j ! s"
        by (simp only: t if_not_P [OF False])
      with f have "transmit_flag st ! j ! s" by simp
      from relay_timesD [OF rel j s this] e2 a(3) show ?thesis by simp
    qed
  qed
qed

lemma change_all_relay:
  assumes wf: "wf_network net" and rel: "relay_times net g st" and rows: "rows_ok net st"
    and zero: "\<forall>s<net_size net. g ! s ! s = 0"
    and run: "change_all net st = Inr st'"
  shows "iter_count st' = iter_count st \<and> relay_times net g st'"
proof -
  have "rows_ok net st' \<and> iter_count st' = iter_count st \<and> relay_times net g st'"
  proof (rule foldM_invariant [OF run [unfolded change_all_def],
      where P = "\<lambda>s. rows_ok net s \<and> iter_count s = iter_count st \<and> relay_times net g s"])
    show "rows_ok net st \<and> iter_count st = iter_count st \<and> relay_times net g st"
      using rel rows by simp
  next
    fix a i b
    assume i: "i \<in> set [0..<net_size net]" and step: "change_node net a i = Inr b"
      and a: "rows_ok net a \<and> iter_count a = iter_count st \<and> relay_times net g a"
    from i have il: "i < net_size net" by simp
    from a have ra: "rows_ok net a" and ia: "iter_count a = iter_count st"
      and rel_a: "relay_times net g a" by simp_all
    show "rows_ok net b \<and> iter_count b = iter_count st \<and> relay_times net g b"
    proof (cases "change_flag a ! i")
      case False
      with step a show ?thesis by (simp add: change_node_def)
    next
      case True
      with step have rc: "role_change net i a = Inr b" by (simp add: change_node_def)
      from zero il have z: "g ! i ! i = 0" by simp
      note r = role_change_ok [OF wf rows_okD(1) [OF ra] il rows_okD(2) [OF ra il] rc]
      have "node_ok net b k" if k: "k < net_size net" for k
      proof (cases "k = i")
        case True
        with r(2) show ?thesis by simp
      next
        case False
        from node_ok_cong [OF rows_okD(2) [OF ra k] r(3) [OF False] r(4) [OF False] r(5) [OF False]]
        show ?thesis .
      qed
      with r(1) have "rows_ok net b" by (simp add: rows_ok_def)
      with role_change_relay [OF rel_a ra il rc z] role_change_shape(3) [OF rc] ia
      show ?thesis by simp
    qed
  qed
  then show ?thesis by simp
qed

lemma change_node_flag:
  assumes "change_node net st j = Inr st'"
  shows "length (change_flag st') = length (change_flag st)"
    and "i < length (change_flag st) \<Longrightarrow> \<not> change_flag st ! i \<Longrightarrow> \<not> change_flag st' ! i"
    and "j < length (change_flag st) \<Longrightarrow> \<not> change_flag st' ! j"
proof -
  have c: "change_flag st' = (if change_flag st ! j then (change_flag st)[j := False]
      else change_flag st)"
  proof (cases "change_flag st ! j")
    case True
    with assms have "role_change net j st = Inr st'" by (simp add: change_node_def)
    from role_change_shape(4) [OF this] True show ?thesis by simp
  next
    case False
    with assms show ?thesis by (simp add: change_node_def)
  qed
  show "length (change_flag st') = length (change_flag st)"
    by (simp add: c)
  show "\<not> change_flag st' ! i" if "i < length (change_flag st)" "\<not> change_flag st ! i"
    using that by (cases "i = j") (simp_all add: c)
  show "\<not> change_flag st' ! j" if "j < length (change_flag st)"
    using that by (simp add: c)
qed

lemma change_all_clears:
  assumes run: "change_all net st = Inr st'" and len: "length (change_flag st) = net_size net"
    and i: "i < net_size net"
  shows "\<not> change_flag st' ! i"
proof -
  let ?f = "change_node net"
  let ?P = "\<lambda>s. length (change_flag s) = net_size net"
  let ?Q = "\<lambda>s. length (change_flag s) = net_size net \<and> \<not> change_flag s ! i"
  from run have "foldM ?f st ([0..<i] @ i # [Suc i..<net_size net]) = Inr st'"
    using upt_split [OF i] by (simp add: change_all_def)
  then obtain st0 sti where before: "foldM ?f st [0..<i] = Inr st0"
    and here: "?f st0 i = Inr sti" and after: "foldM ?f sti [Suc i..<net_size net] = Inr st'"
    by (auto simp: foldM_append split: sum.splits)
  have l0: "?P st0"
    by (rule foldM_invariant [OF before, where P = ?P]) (simp_all add: len change_node_flag(1))
  from change_node_flag(1,3) [OF here] l0 i have qi: "?Q sti" by simp
  have "?Q st'"
  proof (rule foldM_invariant [OF after, where P = ?Q])
    show "?Q sti" by (rule qi)
  next
    fix a j b
    assume "change_node net a j = Inr b" and a: "?Q a"
    from change_node_flag(1) [OF this(1)] change_node_flag(2) [OF this(1), of i] a i
    show "?Q b" by simp
  qed
  then show ?thesis by simp
qed

lemma layeredD:
  assumes "layered net g"
  shows "s < net_size net \<Longrightarrow> g ! s ! s = 0"
    and "s < net_size net \<Longrightarrow> t \<in> set (connection_lists net ! s) \<Longrightarrow> g ! s ! t = 1"
    and "s < net_size net \<Longrightarrow> j < net_size net \<Longrightarrow> t \<in> set (neighbors_send net ! s ! j) \<Longrightarrow>
           g ! s ! t = g ! s ! j + 1"
  using assms unfolding layered_def by blast+

lemma build_network_layered:
  assumes wf: "wf_connections c" and g: "gradients_of c = Inr g"
    and net: "build_network c pref = Inr net"
  shows "layered net g"
proof -
  let ?cl = "connection_lists_of c"
  from net g have n: "net_size net = length c" "connection_lists net = ?cl"
    "neighbors_send net = neighbors_send_of ?cl g"
    by (auto simp: build_network_def)
  have len: "length ?cl = length c" by (rule length_connection_lists_of)
  have a: "g ! s ! s = 0" if "s < net_size net" for s
    using gradient_self_and_neighbour(1) [OF wf g] that n by simp
  have b: "g ! s ! t = 1" if "s < net_size net" "t \<in> set (connection_lists net ! s)" for s t
    using gradient_self_and_neighbour(2) [OF wf g] that n by simp
  have c: "g ! s ! t = g ! s ! j + 1"
    if "s < net_size net" "j < net_size net" "t \<in> set (neighbors_send net ! s ! j)" for s j t
    using neighbors_send_of_set [of s ?cl j g] that n len by simp
  from a b c show ?thesis unfolding layered_def by blast
qed

lemma transmissions_flag:
  assumes "x \<in> set (transmissions net st)"
  shows "transmit_flag st ! fst x ! fst (snd (snd x))"
    and "snd (snd x) = relay_message st (fst x) (fst (snd (snd x)))"
  using assms by (auto simp: transmissions_def relay_message_def split: if_splits)

lemma transmit_times:
  assumes lay: "layered net g" and rel: "relay_times net g st"
    and empty: "message_rx st = replicate (net_size net) []"
  shows "inbox_times net g (transmit net st)"
  unfolding inbox_times_def
proof (intro allI impI ballI)
  fix t m
  assume t: "t < net_size net" and m: "m \<in> set (message_rx (transmit net st) ! t)"
  from m t have "\<exists>x\<in>set (transmissions net st). fst (snd x) = t \<and> m = snd (snd x)"
    by (auto simp: transmit_def deliver_nth empty)
  then obtain x where x: "x \<in> set (transmissions net st)" and xt: "fst (snd x) = t"
    and mx: "m = snd (snd x)" by blast
  let ?tr = "fst x"
  let ?s = "fst m"
  from transmissions_member [OF x] xt mx
  have tr: "?tr < net_size net" and s: "?s < net_size net"
    and mem: "t \<in> set (neighbors_send net ! ?s ! ?tr)" by simp_all
  from transmissions_flag [OF x] mx
  have flag: "transmit_flag st ! ?tr ! ?s" and rm: "m = relay_message st ?tr ?s" by simp_all
  from arg_cong [OF rm, of snd] have "snd m = local_role_assignment st ! ?tr ! ?s"
    by (simp add: relay_message_def)
  then have "snd (snd (snd m)) = claim_time (local_role_assignment st ! ?tr ! ?s)"
    by (simp add: claim_time_def)
  also from relay_timesD [OF rel tr s flag]
  have "\<dots> = iter_count st - g ! ?s ! ?tr" .
  also from layeredD(3) [OF lay s tr mem]
  have "\<dots> = iter_count st + 1 - g ! ?s ! t" by simp
  finally show "snd (snd (snd m)) = iter_count (transmit net st) + 1 - g ! fst m ! t"
    by (simp add: transmit_def)
qed

lemma initial_transmissions_message:
  assumes "x \<in> set (initial_transmissions net)"
  shows "snd (snd x) = initial_message net (fst x)"
  using assms by (auto simp: initial_transmissions_def)

lemma init_times:
  assumes lay: "layered net g"
  shows "inbox_times net g (init_state net)" and "flags_clear net (init_state net)"
proof -
  show "flags_clear net (init_state net)"
    by (simp add: flags_clear_def init_state_def)
  show "inbox_times net g (init_state net)"
    unfolding inbox_times_def
  proof (intro allI impI ballI)
    fix t m
    assume t: "t < net_size net" and m: "m \<in> set (message_rx (init_state net) ! t)"
    from m t have "\<exists>x\<in>set (initial_transmissions net). fst (snd x) = t \<and> m = snd (snd x)"
      by (auto simp: init_state_def deliver_nth)
    then obtain x where x: "x \<in> set (initial_transmissions net)" and xt: "fst (snd x) = t"
      and mx: "m = snd (snd x)" by blast
    from initial_transmissions_member [OF x] xt
    have s: "fst x < net_size net" and mem: "t \<in> set (connection_lists net ! fst x)"
      by simp_all
    from initial_transmissions_message [OF x] mx have mi: "m = initial_message net (fst x)"
      by simp
    then have "fst m = fst x" "snd (snd (snd m)) = 0"
      by (simp_all add: initial_message_def)
    with layeredD(2) [OF lay s mem]
    show "snd (snd (snd m)) = iter_count (init_state net) + 1 - g ! fst m ! t"
      by (simp add: init_state_def)
  qed
qed

lemma round_step_times:
  assumes wf: "wf_network net" and lay: "layered net g"
    and ok: "tables_ok net st" and tm: "inbox_times net g st" and fc: "flags_clear net st"
    and run: "round_step net st = Inr st'"
  shows "inbox_times net g st'" and "flags_clear net st'"
proof -
  let ?n = "net_size net"
  let ?st1 = "st\<lparr>iter_count := iter_count st + 1, message_rx := replicate ?n []\<rparr>"
  from run obtain st2 st3 where
    rx: "rx_all net (message_rx st) ?st1 = Inr st2"
    and ch: "change_all net st2 = Inr st3"
    and st': "st' = check_converged net (transmit net st3)"
    by (rule round_step_parts)
  have r1: "rows_ok net ?st1"
    by (rule rows_ok_cong [OF tables_okD(1) [OF ok]]) simp_all
  have rel1: "relay_times net g ?st1"
    using fc by (auto simp: relay_times_def flags_clear_def)
  have ms: "\<forall>i<?n. \<forall>m\<in>set (message_rx st ! i). message_ok net m"
    using tables_okD(3) [OF ok] by blast
  have ms': "\<forall>i<?n. \<forall>m\<in>set (message_rx st ! i). message_ok net m \<and>
      snd (snd (snd m)) = iter_count ?st1 - g ! fst m ! i"
    using ms tm by (simp add: inbox_times_def)
  from rx_all_rows [OF r1 ms rx]
  have r2: "rows_ok net st2" and m2: "message_rx st2 = replicate ?n []" by simp_all
  from rx_all_relay [OF rel1 r1 ms' rx] have rel2: "relay_times net g st2" by simp
  from change_all_rows [OF wf r2 ch] m2
  have r3: "rows_ok net st3" and m3: "message_rx st3 = replicate ?n []" by simp_all
  have zero: "\<forall>s<?n. g ! s ! s = 0" using layeredD(1) [OF lay] by blast
  from change_all_relay [OF wf rel2 r2 zero ch] have rel3: "relay_times net g st3" by simp
  from rows_okD(1) [OF r2] have "length (change_flag st2) = ?n" by (simp add: dims_ok_def)
  note cl = change_all_clears [OF ch this]
  from transmit_times [OF lay rel3 m3]
  show "inbox_times net g st'"
    by (simp add: st' inbox_times_def check_converged_def)
  from rows_okD(1) [OF r3] have tl: "length (transmit_flag st3) = ?n" by (simp add: dims_ok_def)
  have "\<not> transmit_flag st' ! i ! s" if i: "i < ?n" and s: "s < ?n" for i s
  proof -
    from node_okD(2) [OF rows_okD(2) [OF r3 i]] s have "s < length (transmit_flag st3 ! i)" by simp
    with i tl show ?thesis by (simp add: st' check_converged_def transmit_def)
  qed
  moreover have "\<not> change_flag st' ! i" if "i < ?n" for i
    using cl [OF that] by (simp add: st' check_converged_def transmit_def)
  ultimately show "flags_clear net st'" by (simp add: flags_clear_def)
qed

lemma rounds_times:
  assumes wf: "wf_network net" and lay: "layered net g"
  shows "tables_ok net st \<Longrightarrow> inbox_times net g st \<Longrightarrow> flags_clear net st \<Longrightarrow>
         rounds k net st = Inr st' \<Longrightarrow>
         tables_ok net st' \<and> inbox_times net g st' \<and> flags_clear net st'"
proof (induction k arbitrary: st)
  case 0
  then show ?case by simp
next
  case (Suc k)
  from Suc.prems(4) obtain st1 where s1: "round_step net st = Inr st1"
    and rest: "rounds k net st1 = Inr st'" by (auto split: sum.splits)
  note t = round_step_times [OF wf lay Suc.prems(1,2,3) s1]
  from Suc.IH [OF round_step_ok [OF wf Suc.prems(1) s1] t rest] show ?case .
qed

lemma rx_fold_updated:
  assumes run: "foldM (rx_message net i) st ms = Inr st'"
    and rows: "rows_ok net st" and i: "i < net_size net"
    and ms: "\<forall>m\<in>set ms. message_ok net m"
    and uni: "\<forall>m\<in>set ms. snd (snd (snd m)) = T (fst m)"
  shows "(local_role_assignment st' ! i ! j \<noteq> local_role_assignment st ! i ! j \<longleftrightarrow>
            (\<exists>m\<in>set ms. fst m = j \<and>
               claim_time (local_role_assignment st ! i ! j) < snd (snd (snd m)))) \<and>
         (local_role_assignment st' ! i ! j \<noteq> local_role_assignment st ! i ! j \<longrightarrow>
            (\<exists>m\<in>set ms. fst m = j \<and> snd m = local_role_assignment st' ! i ! j))"
  using run rows ms uni
proof (induction ms arbitrary: st)
  case Nil
  then show ?case by simp
next
  case (Cons m ms)
  let ?n = "net_size net"
  let ?f = "rx_message net i"
  from Cons.prems(1) obtain s1 where s1: "?f st m = Inr s1" and rest: "foldM ?f s1 ms = Inr st'"
    by (auto split: sum.splits)
  from Cons.prems(3) have mok: "message_ok net m" and msok: "\<forall>m\<in>set ms. message_ok net m"
    by simp_all
  from rx_message_rows [OF Cons.prems(2) i mok s1] have r1: "rows_ok net s1" by simp
  from Cons.prems(4) have tm: "snd (snd (snd m)) = T (fst m)"
    and uni': "\<forall>m\<in>set ms. snd (snd (snd m)) = T (fst m)"
    by simp_all
  from rows_okD(1) [OF Cons.prems(2)] i have il: "i < length (local_role_assignment st)"
    by (simp add: dims_ok_def)
  from node_okD(1) [OF rows_okD(2) [OF Cons.prems(2) i]]
  have rl: "length (local_role_assignment st ! i) = ?n" .
  note ih = Cons.IH [OF rest r1 msok uni']
  let ?E = "local_role_assignment st' ! i ! j"
  show ?case
  proof (cases "newer st i m")
    case False
    from rx_message_not_applied [OF s1 False] have e: "s1 = st" .
    from False have "\<not> (fst m = j \<and> claim_time (local_role_assignment st ! i ! j) < snd (snd (snd m)))"
      by (auto simp: newer_alt)
    with ih [unfolded e] show ?thesis by auto
  next
    case True
    note a = rx_message_applied [OF s1 True]
    let ?s = "fst m"
    from a(3) il rl a(2) have e1: "local_role_assignment s1 ! i ! ?s = snd m"
      by simp
    from a(3) have other: "local_role_assignment s1 ! i ! k = local_role_assignment st ! i ! k"
      if "k \<noteq> ?s" for k
      using that by (simp add: nth_nth_update_other)
    from e1 have t1: "claim_time (local_role_assignment s1 ! i ! ?s) = snd (snd (snd m))"
      by (simp add: claim_time_def)
    have "\<forall>m'\<in>set ms. fst m' = ?s \<longrightarrow>
        snd (snd (snd m')) \<le> claim_time (local_role_assignment s1 ! i ! ?s)"
    proof (intro ballI impI)
      fix m' assume "m' \<in> set ms" and "fst m' = ?s"
      with uni' have "snd (snd (snd m')) = T ?s" by auto
      with tm t1 show "snd (snd (snd m')) \<le> claim_time (local_role_assignment s1 ! i ! ?s)"
        by simp
    qed
    from rx_fold_entry_kept [OF rest this] e1
    have e': "local_role_assignment st' ! i ! ?s = snd m" by simp
    from True have ne: "snd m \<noteq> local_role_assignment st ! i ! ?s"
      by (auto simp: newer_alt claim_time_def)
    show ?thesis
    proof (cases "j = ?s")
      case True
      note js = this
      from \<open>newer st i m\<close> have "claim_time (local_role_assignment st ! i ! ?s) < snd (snd (snd m))"
        by (simp add: newer_alt)
      with js e' ne show ?thesis by auto
    next
      case False
      from False have o: "local_role_assignment s1 ! i ! j = local_role_assignment st ! i ! j"
        by (rule other)
      from False have "\<not> (fst m = j \<and> P)" for P by auto
      with ih [unfolded o] False show ?thesis by auto
    qed
  qed
qed

lemma rx_all_updated:
  assumes run: "rx_all net buf st = Inr st'"
    and rows: "rows_ok net st" and i: "i < net_size net"
    and ms: "\<forall>k<net_size net. \<forall>m\<in>set (buf ! k). message_ok net m"
    and uni: "\<forall>m\<in>set (buf ! i). snd (snd (snd m)) = T (fst m)"
  shows "(local_role_assignment st' ! i ! j \<noteq> local_role_assignment st ! i ! j \<longleftrightarrow>
            (\<exists>m\<in>set (buf ! i). fst m = j \<and>
               claim_time (local_role_assignment st ! i ! j) < snd (snd (snd m)))) \<and>
         (local_role_assignment st' ! i ! j \<noteq> local_role_assignment st ! i ! j \<longrightarrow>
            (\<exists>m\<in>set (buf ! i). fst m = j \<and> snd m = local_role_assignment st' ! i ! j))"
proof -
  let ?f = "rx_node net buf"
  from run have "foldM ?f st ([0..<i] @ i # [Suc i..<net_size net]) = Inr st'"
    using upt_split [OF i] by (simp add: rx_all_def)
  then obtain st0 sti where before: "foldM ?f st [0..<i] = Inr st0"
    and here: "?f st0 i = Inr sti" and after: "foldM ?f sti [Suc i..<net_size net] = Inr st'"
    by (auto simp: foldM_append split: sum.splits)
  have r0: "rows_ok net st0"
  proof (rule rx_prefix_rows [OF before rows _ ms])
    show "\<forall>j\<in>set [0..<i]. j < net_size net" using i by simp
  qed
  note b = rx_nodes_other(3) [OF before, of i, simplified]
  note a = rx_nodes_other(3) [OF after, of i, simplified]
  from here have fold: "foldM (rx_message net i) st0 (buf ! i) = Inr sti"
    by (simp add: rx_node_def)
  from ms i have mi: "\<forall>m\<in>set (buf ! i). message_ok net m" by blast
  from rx_fold_updated [OF fold r0 i mi uni, of j] show ?thesis
    unfolding a b .
qed

text \<open>
  C6. Take any state that the run reaches between two iterations, and the receive phase of
  the next iteration. The role that node \<open>i\<close> holds is not changed by receiving. Node
  \<open>i\<close> is marked to change its role exactly when, after all its messages have been
  processed, some entry of its table that the messages have changed holds the role of
  \<open>i\<close> with a probability greater than or equal to the score of \<open>i\<close> for that role.
  The entries that have changed are those for which the inbox held a message newer than
  the entry, and each of them holds what such a message carried.
\<close>

theorem yield_mark_iff_conflict:
  assumes wf: "wf_connections c" and net: "build_network c pref = Inr net"
    and wn: "wf_network net"
    and run: "rounds k net (init_state net) = Inr st"
    and rx: "rx_all net (message_rx st)
               (st\<lparr>iter_count := iter_count st + 1,
                   message_rx := replicate (net_size net) []\<rparr>) = Inr st2"
    and i: "i < net_size net"
  shows "local_role_assignment st2 ! i ! i = local_role_assignment st ! i ! i \<and>
         (change_flag st2 ! i \<longleftrightarrow>
           (\<exists>j<net_size net.
               local_role_assignment st2 ! i ! j \<noteq> local_role_assignment st ! i ! j \<and>
               claim_role (local_role_assignment st2 ! i ! j) =
                 claim_role (local_role_assignment st2 ! i ! i) \<and>
               pref_dist net ! i ! py_index (net_size net)
                   (claim_role (local_role_assignment st2 ! i ! i))
                 \<le> claim_prob (local_role_assignment st2 ! i ! j))) \<and>
         (\<forall>j<net_size net.
            (local_role_assignment st2 ! i ! j \<noteq> local_role_assignment st ! i ! j \<longleftrightarrow>
               (\<exists>m\<in>set (message_rx st ! i). fst m = j \<and>
                  claim_time (local_role_assignment st ! i ! j) < snd (snd (snd m)))) \<and>
            (local_role_assignment st2 ! i ! j \<noteq> local_role_assignment st ! i ! j \<longrightarrow>
               (\<exists>m\<in>set (message_rx st ! i). fst m = j \<and>
                  snd m = local_role_assignment st2 ! i ! j)))"
proof -
  let ?n = "net_size net"
  let ?st1 = "st\<lparr>iter_count := iter_count st + 1, message_rx := replicate ?n []\<rparr>"
  from net obtain g where g: "gradients_of c = Inr g"
    by (auto simp: build_network_def split: sum.splits)
  note lay = build_network_layered [OF wf g net]
  from rounds_times [OF wn lay init_state_ok [OF wn] init_times [OF lay] run]
  have ok: "tables_ok net st" and tm: "inbox_times net g st" and fc: "flags_clear net st"
    by simp_all
  have r1: "rows_ok net ?st1"
    by (rule rows_ok_cong [OF tables_okD(1) [OF ok]]) simp_all
  have ms: "\<forall>k<?n. \<forall>m\<in>set (message_rx st ! k). message_ok net m"
    using tables_okD(3) [OF ok] by blast
  have uni: "\<forall>m\<in>set (message_rx st ! i).
      snd (snd (snd m)) = (\<lambda>s. iter_count st + 1 - g ! s ! i) (fst m)"
    using tm i by (simp add: inbox_times_def)
  from fc i have clear: "\<not> change_flag ?st1 ! i" by (simp add: flags_clear_def)
  note m = rx_all_mark [OF rx r1 i ms uni clear]
  from m(1) have own: "local_role_assignment st2 ! i ! i = local_role_assignment st ! i ! i"
    by simp
  from m(2) have mark: "change_flag st2 ! i \<longleftrightarrow>
           (\<exists>j<net_size net.
               local_role_assignment st2 ! i ! j \<noteq> local_role_assignment st ! i ! j \<and>
               claim_role (local_role_assignment st2 ! i ! j) =
                 claim_role (local_role_assignment st2 ! i ! i) \<and>
               pref_dist net ! i ! py_index (net_size net)
                   (claim_role (local_role_assignment st2 ! i ! i))
                 \<le> claim_prob (local_role_assignment st2 ! i ! j))"
    unfolding own by simp
  have upd: "(local_role_assignment st2 ! i ! j \<noteq> local_role_assignment st ! i ! j \<longleftrightarrow>
               (\<exists>m\<in>set (message_rx st ! i). fst m = j \<and>
                  claim_time (local_role_assignment st ! i ! j) < snd (snd (snd m)))) \<and>
            (local_role_assignment st2 ! i ! j \<noteq> local_role_assignment st ! i ! j \<longrightarrow>
               (\<exists>m\<in>set (message_rx st ! i). fst m = j \<and>
                  snd m = local_role_assignment st2 ! i ! j))" for j
    using rx_all_updated [OF rx r1 i ms uni, of j] by simp
  from own mark upd show ?thesis by blast
qed

theorem yield_mark_iff_conflict_witness:
  "wf_connections line_connections \<and>
   build_network line_connections (pref_dist line_net) = Inr line_net \<and>
   wf_network line_net \<and>
   rounds 1 line_net (init_state line_net) = Inr line_round1 \<and>
   rx_all line_net (message_rx line_round1)
     (line_round1\<lparr>iter_count := iter_count line_round1 + 1,
         message_rx := replicate (net_size line_net) []\<rparr>) = Inr line_rx2 \<and>
   change_flag line_rx2 ! 0 \<and>
   (\<exists>j<net_size line_net.
      local_role_assignment line_rx2 ! 0 ! j \<noteq> local_role_assignment line_round1 ! 0 ! j \<and>
      claim_role (local_role_assignment line_rx2 ! 0 ! j) =
        claim_role (local_role_assignment line_rx2 ! 0 ! 0) \<and>
      pref_dist line_net ! 0 ! py_index (net_size line_net)
          (claim_role (local_role_assignment line_rx2 ! 0 ! 0))
        \<le> claim_prob (local_role_assignment line_rx2 ! 0 ! j))"
proof -
  have h: "wf_connections line_connections"
    "build_network line_connections (pref_dist line_net) = Inr line_net"
    "wf_network line_net"
    "rounds 1 line_net (init_state line_net) = Inr line_round1"
    "rx_all line_net (message_rx line_round1)
       (line_round1\<lparr>iter_count := iter_count line_round1 + 1,
           message_rx := replicate (net_size line_net) []\<rparr>) = Inr line_rx2"
    "0 < net_size line_net"
    by code_simp+
  have c: "change_flag line_rx2 ! 0"
    by code_simp
  note t = yield_mark_iff_conflict [OF h]
  from conjunct1 [OF conjunct2 [OF t]] c
  have "\<exists>j<net_size line_net.
      local_role_assignment line_rx2 ! 0 ! j \<noteq> local_role_assignment line_round1 ! 0 ! j \<and>
      claim_role (local_role_assignment line_rx2 ! 0 ! j) =
        claim_role (local_role_assignment line_rx2 ! 0 ! 0) \<and>
      pref_dist line_net ! 0 ! py_index (net_size line_net)
          (claim_role (local_role_assignment line_rx2 ! 0 ! 0))
        \<le> claim_prob (local_role_assignment line_rx2 ! 0 ! j)"
    by (rule iffD1)
  with h c show ?thesis by blast
qed

end
